theory Spec2Isabelle
  imports Main "HOL-Library.Sublist"
begin

section \<open>JavaScript strings and regular expressions\<close>

text \<open>
  A JavaScript string is a sequence of UTF-16 code units: \<open>length\<close>, \<open>substring\<close> and the
  regular expressions of the parser (none has the \<open>u\<close> flag) all count and match code units.
  A code unit is modelled by its number, a string by the list of its code units.
  \<open>js\<close> writes an ASCII literal of the source as such a list.
\<close>

type_synonym jstring = "nat list"

definition js :: "string \<Rightarrow> jstring" where
  "js s = map of_char s"

text \<open>Character classes of the regular expressions: \<open>\d\<close>, \<open>[A-Za-z]\<close>, \<open>\w\<close>, \<open>\s\<close>,
  the line terminators that \<open>.\<close> excludes, and \<open>[^>]\<close>.\<close>

definition isDigit :: "nat \<Rightarrow> bool" where
  "isDigit c = (48 \<le> c \<and> c \<le> 57)"

definition isAlpha :: "nat \<Rightarrow> bool" where
  "isAlpha c = ((65 \<le> c \<and> c \<le> 90) \<or> (97 \<le> c \<and> c \<le> 122))"

definition isWord :: "nat \<Rightarrow> bool" where
  "isWord c = (isAlpha c \<or> isDigit c \<or> c = 95)"

definition isSpace :: "nat \<Rightarrow> bool" where
  "isSpace c = ((9 \<le> c \<and> c \<le> 13) \<or> c = 32 \<or> c = 160 \<or> c = 5760
      \<or> (8192 \<le> c \<and> c \<le> 8202) \<or> c = 8232 \<or> c = 8233 \<or> c = 8239
      \<or> c = 8287 \<or> c = 12288 \<or> c = 65279)"

definition isLineTerminator :: "nat \<Rightarrow> bool" where
  "isLineTerminator c = (c = 10 \<or> c = 13 \<or> c = 8232 \<or> c = 8233)"

definition notGt :: "nat \<Rightarrow> bool" where
  "notGt c = (c \<noteq> 62)"

text \<open>
  Under the \<open>i\<close> flag (without \<open>u\<close>) two code units match when their canonical forms are
  equal; the canonical form is the upper case, except that a code unit of 128 or more never
  folds to an ASCII one. Every pattern character of the parser is ASCII, so the comparison
  reduces to ASCII upper-casing.
\<close>

definition upperAscii :: "nat \<Rightarrow> nat" where
  "upperAscii c = (if 97 \<le> c \<and> c \<le> 122 then c - 32 else c)"

definition sameChar :: "bool \<Rightarrow> nat \<Rightarrow> nat \<Rightarrow> bool" where
  "sameChar ci p c = (if ci then upperAscii c = upperAscii p else c = p)"

definition inClass :: "bool \<Rightarrow> jstring \<Rightarrow> nat \<Rightarrow> bool" where
  "inClass ci chars c = (\<exists>p \<in> set chars. sameChar ci p c)"

text \<open>
  A regular expression is embedded as a backtracking matcher in continuation-passing style:
  the matcher consumes a prefix of the input and hands the rest to its continuation; when
  the continuation fails (\<open>None\<close>) the matcher tries its next choice, in the order of the
  ECMAScript semantics (greedy: longest first, lazy: shortest first, alternation: left to
  right). Sequencing is nesting of continuations.
\<close>

type_synonym 'r cont = "jstring \<Rightarrow> 'r option"

fun lit :: "bool \<Rightarrow> jstring \<Rightarrow> 'r cont \<Rightarrow> 'r cont" where
  "lit ci [] k s = k s"
| "lit ci (p # ps) k [] = None"
| "lit ci (p # ps) k (c # cs) = (if sameChar ci p c then lit ci ps k cs else None)"

fun cls :: "(nat \<Rightarrow> bool) \<Rightarrow> 'r cont \<Rightarrow> 'r cont" where
  "cls P k [] = None"
| "cls P k (c # cs) = (if P c then k cs else None)"

fun starG :: "(nat \<Rightarrow> bool) \<Rightarrow> 'r cont \<Rightarrow> 'r cont" where
  "starG P k [] = k []"
| "starG P k (c # cs) =
     (if P c then (case starG P k cs of Some r \<Rightarrow> Some r | None \<Rightarrow> k (c # cs))
      else k (c # cs))"

definition plusG :: "(nat \<Rightarrow> bool) \<Rightarrow> 'r cont \<Rightarrow> 'r cont" where
  "plusG P k = cls P (starG P k)"

fun starL :: "(nat \<Rightarrow> bool) \<Rightarrow> 'r cont \<Rightarrow> 'r cont" where
  "starL P k [] = k []"
| "starL P k (c # cs) =
     (case k (c # cs) of Some r \<Rightarrow> Some r
      | None \<Rightarrow> if P c then starL P k cs else None)"

definition alt :: "('r cont \<Rightarrow> 'r cont) \<Rightarrow> ('r cont \<Rightarrow> 'r cont) \<Rightarrow> 'r cont \<Rightarrow> 'r cont" where
  "alt a b k s = (case a k s of Some r \<Rightarrow> Some r | None \<Rightarrow> b k s)"

text \<open>\<open>(?:g)*\<close> for a group \<open>g\<close> that consumes at least one code unit per iteration: the
  number of iterations is bounded by the length of the input, which is the fuel.\<close>

primrec starGroup :: "nat \<Rightarrow> ('r cont \<Rightarrow> 'r cont) \<Rightarrow> 'r cont \<Rightarrow> 'r cont" where
  "starGroup 0 g k s = k s"
| "starGroup (Suc n) g k s =
     (case g (starGroup n g k) s of Some r \<Rightarrow> Some r | None \<Rightarrow> k s)"

text \<open>\<open>String.prototype.replace\<close> with a global regular expression: the matches are found
  left to right, each search starting where the previous match ended (one code unit further
  after an empty match), and each is replaced by \<open>rep\<close>.\<close>

function replaceAll :: "(jstring cont \<Rightarrow> jstring cont) \<Rightarrow> jstring \<Rightarrow> jstring \<Rightarrow> jstring" where
  "replaceAll rx rep [] = (case rx Some [] of Some rest \<Rightarrow> rep | None \<Rightarrow> [])"
| "replaceAll rx rep (c # cs) =
     (case rx Some (c # cs) of
        None \<Rightarrow> c # replaceAll rx rep cs
      | Some rest \<Rightarrow>
          if length rest \<le> length cs then rep @ replaceAll rx rep rest
          else rep @ c # replaceAll rx rep cs)"
  by pat_completeness auto
termination
  by (relation "measure (\<lambda>(rx, rep, s). length s)") auto

text \<open>\<open>String.prototype.trim\<close> removes white space and line terminators at both ends.\<close>

definition trim :: "jstring \<Rightarrow> jstring" where
  "trim s = rev (dropWhile isSpace (rev (dropWhile isSpace s)))"

text \<open>\<open>String.prototype.substring(start, end)\<close> on non-negative integers: both arguments
  are clamped to the length and swapped when \<open>start > end\<close>.\<close>

definition substring :: "jstring \<Rightarrow> nat \<Rightarrow> nat \<Rightarrow> jstring" where
  "substring s a b =
     (let a' = min a (length s); b' = min b (length s);
          lo = min a' b'; hi = max a' b'
      in take (hi - lo) (drop lo s))"

text \<open>\<open>String.prototype.includes\<close> with a string argument.\<close>

fun includes_str :: "jstring \<Rightarrow> jstring \<Rightarrow> bool" where
  "includes_str [] pat = (pat = [])"
| "includes_str (c # cs) pat = (prefix pat (c # cs) \<or> includes_str cs pat)"

section \<open>stripHtml\<close>

text \<open>The replacement passes of \<open>stripHtml\<close>, in the order of the source: the tag pattern
  \<open><[^>]+>\<close>, the numeric references, the named references, and \<open>\s+\<close>.\<close>

definition stripPasses :: "((jstring cont \<Rightarrow> jstring cont) \<times> jstring) list" where
  "stripPasses =
   [ (\<lambda>k. lit False (js ''<'') (plusG notGt (lit False (js ''>'') k)), js '' ''),
     (lit True (js ''&#xa0;''), js '' ''),
     (lit True (js ''&#x2011;''), js ''-''),
     (lit True (js ''&#x2013;''), [8211]),
     (lit True (js ''&#x2014;''), [8212]),
     (lit True (js ''&#x2018;''), [8216]),
     (lit True (js ''&#x2019;''), [8217]),
     (\<lambda>k. lit True (js ''&#x201'') (cls (inClass True (js ''cCdD'')) (lit True (js '';'') k)),
        [34]),
     (\<lambda>k. lit True (js ''&#x'') (plusG isWord (lit True (js '';'') k)), js '' ''),
     (lit True (js ''&nbsp;''), js '' ''),
     (lit False (js ''&amp;''), js ''&''),
     (lit False (js ''&lt;''), js ''<''),
     (lit False (js ''&gt;''), js ''>''),
     (lit False (js ''&quot;''), [34]),
     (lit False (js ''&#39;''), [39]),
     (lit False (js ''&rsquo;''), [8217]),
     (lit False (js ''&lsquo;''), [8216]),
     (lit False (js ''&rdquo;''), [8221]),
     (lit False (js ''&ldquo;''), [8220]),
     (lit False (js ''&mdash;''), [8212]),
     (lit False (js ''&ndash;''), [8211]),
     (plusG isSpace, js '' '') ]"

definition stripHtml :: "jstring \<Rightarrow> jstring" where
  "stripHtml html = trim (foldl (\<lambda>s (rx, rep). replaceAll rx rep s) html stripPasses)"

text \<open>Further pieces of the embedding: an ordered alternation \<open>a|b|...\<close>, a capturing
  group (the continuation receives the captured text), the search for the first position
  at which a non-global expression matches (\<open>String.prototype.match\<close>), and
  \<open>Array.prototype.join\<close>.\<close>

fun alts :: "('r cont \<Rightarrow> 'r cont) list \<Rightarrow> 'r cont \<Rightarrow> 'r cont" where
  "alts [] k s = None"
| "alts (a # as) k s = (case a k s of Some r \<Rightarrow> Some r | None \<Rightarrow> alts as k s)"

definition capture :: "jstring \<Rightarrow> jstring \<Rightarrow> jstring" where
  "capture from to = take (length from - length to) from"

definition grp :: "('r cont \<Rightarrow> 'r cont) \<Rightarrow> (jstring \<Rightarrow> 'r cont) \<Rightarrow> 'r cont" where
  "grp g k s = g (\<lambda>s'. k (capture s s') s') s"

fun searchFirst :: "'r cont \<Rightarrow> 'r cont" where
  "searchFirst m [] = m []"
| "searchFirst m (c # cs) = (case m (c # cs) of Some r \<Rightarrow> Some r | None \<Rightarrow> searchFirst m cs)"

fun join :: "jstring \<Rightarrow> jstring list \<Rightarrow> jstring" where
  "join sep [] = []"
| "join sep [x] = x"
| "join sep (x # y # ys) = x @ sep @ join sep (y # ys)"

definition anyChar :: "nat \<Rightarrow> bool" where
  "anyChar c = True"

definition digit19 :: "nat \<Rightarrow> bool" where
  "digit19 c = (49 \<le> c \<and> c \<le> 57)"

section \<open>Data model\<close>

record heading =
  h_class :: jstring
  h_text :: jstring
  h_index :: nat
  h_end :: nat

record parsedSection =
  sectionNum :: jstring
  sectionTitle :: jstring
  bodyHtml :: jstring
  partContext :: "jstring option"
  position :: nat

record parsedProvision =
  provision_ref :: jstring
  p_chapter :: "jstring option"
  p_section :: jstring
  p_title :: jstring
  p_content :: jstring

record parsedDefinition =
  d_term :: jstring
  d_definition :: jstring
  source_provision :: "jstring option"

text \<open>Of the record that \<open>parseAustralianHtml\<close> returns, the two parsed sequences; the other
  fields are computed from the descriptor and the version metadata alone.\<close>

record parsedAct =
  provisions :: "parsedProvision list"
  definitions :: "parsedDefinition list"

section \<open>splitIntoSections\<close>

text \<open>\<open>/<p[^>]*class="((?:ActHead|New|Heading)[1-9])"[^>]*>([\s\S]*?)<\/p>/gi\<close> at the head of
  the input: the class name, the inner markup and the input left after the match.\<close>

definition headingRegex :: "jstring \<Rightarrow> (jstring \<times> jstring \<times> jstring) option" where
  "headingRegex =
     lit True (js ''<p'') (starG notGt (lit True (js ''class='' @ [34])
       (grp (\<lambda>k. alts [lit True (js ''ActHead''), lit True (js ''New''), lit True (js ''Heading'')]
                   (cls digit19 k))
         (\<lambda>cl. lit True [34] (starG notGt (lit True (js ''>'')
           (grp (starL anyChar)
             (\<lambda>inner. lit True (js ''</p>'') (\<lambda>rest. Some (cl, inner, rest))))))))))"

text \<open>\<open>heading.class.match(/(\d)$/)\<close> and \<open>parseInt\<close> of the digit, 0 without a match.\<close>

definition levelOf :: "jstring \<Rightarrow> nat" where
  "levelOf cl = (if cl \<noteq> [] \<and> isDigit (last cl) then last cl - 48 else 0)"

text \<open>\<open>/^(\d+(?:\.\d+)*[A-Za-z]*)\s+(.*)/\<close>: the section number and the rest of the line.\<close>

definition sectRegex :: "jstring \<Rightarrow> (jstring \<times> jstring) option" where
  "sectRegex s =
     grp (\<lambda>k. plusG isDigit
                (starGroup (length s) (\<lambda>k'. lit False (js ''.'') (plusG isDigit k'))
                   (starG isAlpha k)))
       (\<lambda>num. plusG isSpace
          (grp (starG (\<lambda>c. \<not> isLineTerminator c)) (\<lambda>title rest. Some (num, title))))
       s"

text \<open>\<open>[currentPart, currentDivision].filter(Boolean).join(' > ') || undefined\<close>: \<open>undefined\<close>
  and the empty string are the falsy values.\<close>

fun filterBoolean :: "jstring option list \<Rightarrow> jstring list" where
  "filterBoolean [] = []"
| "filterBoolean (None # xs) = filterBoolean xs"
| "filterBoolean (Some s # xs) = (if s = [] then filterBoolean xs else s # filterBoolean xs)"

definition buildPartContext :: "jstring option \<Rightarrow> jstring option \<Rightarrow> jstring option" where
  "buildPartContext part division =
     (let joined = join (js '' > '') (filterBoolean [part, division])
      in if joined = [] then None else Some joined)"

record splitState =
  currentPart :: "jstring option"
  currentDivision :: "jstring option"
  sections :: "parsedSection list"

text \<open>One iteration of the loop over \<open>headings\<close>; \<open>nextHeadingIdx\<close> is
  \<open>headings[i + 1].index\<close>, or \<open>html.length\<close> at the last heading.\<close>

definition splitStep :: "jstring \<Rightarrow> nat \<Rightarrow> splitState \<Rightarrow> heading \<Rightarrow> splitState" where
  "splitStep html nextHeadingIdx st h =
     (let headingText = h_text h; level = levelOf (h_class h) in
      if level = 1 then st\<lparr>currentPart := Some headingText, currentDivision := None\<rparr>
      else if level = 2 then st\<lparr>currentPart := Some headingText, currentDivision := None\<rparr>
      else if level = 3 then st\<lparr>currentDivision := Some headingText\<rparr>
      else if level = 4 then st\<lparr>currentDivision := Some headingText\<rparr>
      else if level = 5 \<or> level = 9 then
        (case sectRegex headingText of
           None \<Rightarrow> st
         | Some (num, title) \<Rightarrow>
             st\<lparr>sections := sections st @
               [\<lparr>sectionNum = num, sectionTitle = trim title,
                 bodyHtml = substring html (h_end h) nextHeadingIdx,
                 partContext = buildPartContext (currentPart st) (currentDivision st),
                 position = h_index h\<rparr>]\<rparr>)
      else st)"

definition nextIndex :: "jstring \<Rightarrow> heading list \<Rightarrow> nat" where
  "nextIndex html hs = (case hs of [] \<Rightarrow> length html | h # _ \<Rightarrow> h_index h)"

fun splitLoop :: "jstring \<Rightarrow> splitState \<Rightarrow> heading list \<Rightarrow> splitState" where
  "splitLoop html st [] = st"
| "splitLoop html st (h # hs) = splitLoop html (splitStep html (nextIndex html hs) st h) hs"

text \<open>Every matcher hands its continuation an input that is no longer than its own, so a
  match of \<open>headingRegex\<close> consumes at least one code unit: the \<open>exec\<close> loops below advance.\<close>

lemma lit_Some: "lit ci p k s = Some r \<Longrightarrow> \<exists>s'. length s' + length p = length s \<and> k s' = Some r"
  by (induction ci p k s rule: lit.induct) (auto split: if_splits)

lemma cls_Some: "cls P k s = Some r \<Longrightarrow> \<exists>s'. Suc (length s') = length s \<and> k s' = Some r"
  by (cases s) (auto split: if_splits)

lemma starG_Some: "starG P k s = Some r \<Longrightarrow> \<exists>s'. length s' \<le> length s \<and> k s' = Some r"
proof (induction s)
  case Nil
  then show ?case by auto
next
  case (Cons c cs)
  show ?case
  proof (cases "P c \<and> starG P k cs \<noteq> None")
    case True
    then obtain r' where r': "starG P k cs = Some r'" by auto
    with True Cons.prems have "r' = r" by simp
    with r' Cons.IH obtain s' where "length s' \<le> length cs" "k s' = Some r" by auto
    then show ?thesis by (intro exI [of _ s']) simp
  next
    case False
    with Cons.prems have "k (c # cs) = Some r" by (auto split: if_splits option.splits)
    then show ?thesis by (intro exI [of _ "c # cs"]) simp
  qed
qed

lemma starL_Some: "starL P k s = Some r \<Longrightarrow> \<exists>s'. length s' \<le> length s \<and> k s' = Some r"
proof (induction s)
  case Nil
  then show ?case by auto
next
  case (Cons c cs)
  show ?case
  proof (cases "k (c # cs)")
    case (Some r')
    with Cons.prems have "k (c # cs) = Some r" by simp
    then show ?thesis by (intro exI [of _ "c # cs"]) simp
  next
    case None
    with Cons.prems have "starL P k cs = Some r" by (auto split: if_splits)
    with Cons.IH obtain s' where "length s' \<le> length cs" "k s' = Some r" by auto
    then show ?thesis by (intro exI [of _ s']) simp
  qed
qed

lemma alts_Some: "alts as k s = Some r \<Longrightarrow> \<exists>a \<in> set as. a k s = Some r"
  by (induction as) (auto split: option.splits)

lemma headingRegex_shorter:
  assumes "headingRegex s = Some (cl, inner, rest)"
  shows "length rest + 2 \<le> length s"
  using assms unfolding headingRegex_def grp_def
  by (fastforce dest!: lit_Some starG_Some starL_Some alts_Some cls_Some simp: js_def)

text \<open>The \<open>while ((match = headingRegex.exec(html)) !== null)\<close> loop: \<open>exec\<close> finds the first
  match at or after \<open>lastIndex\<close> and moves \<open>lastIndex\<close> to its end. \<open>off\<close> is the offset of
  the remaining input in \<open>html\<close>.\<close>

function scanHeadings :: "nat \<Rightarrow> jstring \<Rightarrow> heading list" where
  "scanHeadings off [] = []"
| "scanHeadings off (c # cs) =
     (case headingRegex (c # cs) of
        None \<Rightarrow> scanHeadings (Suc off) cs
      | Some (cl, inner, rest) \<Rightarrow>
          \<lparr>h_class = cl, h_text = stripHtml inner, h_index = off,
            h_end = off + (length (c # cs) - length rest)\<rparr>
          # scanHeadings (off + (length (c # cs) - length rest)) rest)"
  by pat_completeness auto
termination
  by (relation "measure (\<lambda>(off, s). length s)") (auto dest: headingRegex_shorter)

definition splitIntoSections :: "jstring \<Rightarrow> parsedSection list" where
  "splitIntoSections html =
     sections (splitLoop html \<lparr>currentPart = None, currentDivision = None, sections = []\<rparr>
                 (scanHeadings 0 html))"

section \<open>extractSectionContent\<close>

definition CONTENT_CLASSES :: "jstring list" where
  "CONTENT_CLASSES = map js
     [''subsection'', ''subsection2'', ''paragraph'', ''paragraphsub'', ''paragraphsub-sub'',
      ''Definition'', ''Penalty'', ''notetext'', ''notepara'', ''SubsectionHead'', ''Tabletext'',
      ''Tablea'', ''TableHeading'', ''SOText'', ''SOPara'', ''SOBullet'',
      ''indenta'', ''indentii'', ''Item'', ''NewItem'', ''Emphasis'']"

text \<open>The expression built from \<open>CONTENT_CLASSES\<close> (no class name holds a character that the
  escaping step changes), flags \<open>gi\<close>: the inner markup and the input left after the match.\<close>

definition contentRegex :: "jstring \<Rightarrow> (jstring \<times> jstring) option" where
  "contentRegex =
     lit True (js ''<p'') (starG notGt (lit True (js ''class='' @ [34])
       (alts (map (lit True) CONTENT_CLASSES)
         (lit True [34] (starG notGt (lit True (js ''>'')
           (grp (starL anyChar)
             (\<lambda>inner. lit True (js ''</p>'') (\<lambda>rest. Some (inner, rest))))))))))"

lemma contentRegex_shorter:
  assumes "contentRegex s = Some (inner, rest)"
  shows "length rest + 2 \<le> length s"
  using assms unfolding contentRegex_def grp_def
  by (fastforce dest!: lit_Some starG_Some starL_Some alts_Some simp: js_def)

function contentLoop :: "jstring \<Rightarrow> jstring list \<Rightarrow> jstring list" where
  "contentLoop [] contentParts = contentParts"
| "contentLoop (c # cs) contentParts =
     (case contentRegex (c # cs) of
        None \<Rightarrow> contentLoop cs contentParts
      | Some (inner, rest) \<Rightarrow>
          (let text = stripHtml inner
           in contentLoop rest (if length text > 2 then contentParts @ [text] else contentParts)))"
  by pat_completeness auto
termination
  by (relation "measure (\<lambda>(s, parts). length s)") (auto dest: contentRegex_shorter)

definition extractSectionContent :: "jstring \<Rightarrow> jstring" where
  "extractSectionContent body =
     (let contentParts = contentLoop body [];
          contentParts' =
            (if length contentParts = 0
             then (let fallback = stripHtml body
                   in if length fallback > 10 then [fallback] else [])
             else contentParts)
      in substring (join (js '' '') contentParts') 0 8000)"

section \<open>extractDefinitions\<close>

text \<open>\<open>/<p[^>]*class="Definition"[^>]*>([\s\S]*?)<\/p>/gi\<close>.\<close>

definition defRegex :: "jstring \<Rightarrow> (jstring \<times> jstring) option" where
  "defRegex =
     lit True (js ''<p'') (starG notGt (lit True (js ''class='' @ [34] @ js ''Definition'' @ [34])
       (starG notGt (lit True (js ''>'')
         (grp (starL anyChar)
           (\<lambda>inner. lit True (js ''</p>'') (\<lambda>rest. Some (inner, rest))))))))"

lemma defRegex_shorter:
  assumes "defRegex s = Some (inner, rest)"
  shows "length rest + 2 \<le> length s"
  using assms unfolding defRegex_def grp_def
  by (fastforce dest!: lit_Some starG_Some starL_Some simp: js_def)

text \<open>\<open>/<(?:b|i|em|strong|span[^>]*font-style:\s*italic[^>]*)>([\s\S]*?)<\/(?:b|i|em|strong|span)>/i\<close>
  at the head of the input: the text of the first group.\<close>

definition termRegex :: "jstring \<Rightarrow> jstring option" where
  "termRegex =
     lit True (js ''<'')
       (alts [lit True (js ''b''), lit True (js ''i''), lit True (js ''em''), lit True (js ''strong''),
              (\<lambda>k. lit True (js ''span'') (starG notGt (lit True (js ''font-style:'')
                      (starG isSpace (lit True (js ''italic'') (starG notGt k))))))]
         (lit True (js ''>'')
           (grp (starL anyChar)
             (\<lambda>inner. lit True (js ''</'')
                (alts [lit True (js ''b''), lit True (js ''i''), lit True (js ''em''),
                       lit True (js ''strong''), lit True (js ''span'')]
                   (lit True (js ''>'') (\<lambda>rest. Some inner)))))))"

text \<open>The body of the \<open>exec\<close> loop of \<open>extractDefinitions\<close> for one match, whose first group is
  \<open>raw\<close>: the definition it pushes, if any.\<close>

definition definitionOf :: "jstring \<Rightarrow> jstring \<Rightarrow> parsedDefinition option" where
  "definitionOf raw provisionRef =
     (let fullText = stripHtml raw
      in case searchFirst termRegex raw of
           None \<Rightarrow> None
         | Some g \<Rightarrow>
             (let t = trim (stripHtml g)
              in if t \<noteq> [] \<and> length t > 1 \<and> length t < 100
                 then Some \<lparr>d_term = t, d_definition = substring fullText 0 4000,
                            source_provision = Some provisionRef\<rparr>
                 else None))"

function defLoop :: "jstring \<Rightarrow> jstring \<Rightarrow> parsedDefinition list \<Rightarrow> parsedDefinition list" where
  "defLoop [] provisionRef defs = defs"
| "defLoop (c # cs) provisionRef defs =
     (case defRegex (c # cs) of
        None \<Rightarrow> defLoop cs provisionRef defs
      | Some (raw, rest) \<Rightarrow>
          defLoop rest provisionRef
            (case definitionOf raw provisionRef of None \<Rightarrow> defs | Some d \<Rightarrow> defs @ [d]))"
  by pat_completeness auto
termination
  by (relation "measure (\<lambda>(s, r, defs). length s)") (auto dest: defRegex_shorter)

definition extractDefinitions :: "jstring \<Rightarrow> jstring \<Rightarrow> parsedDefinition list" where
  "extractDefinitions body provisionRef = defLoop body provisionRef []"

section \<open>parseAustralianHtml\<close>

record parseState =
  ps_provisions :: "parsedProvision list"
  ps_definitions :: "parsedDefinition list"
  seenRefs :: "jstring set"

text \<open>One iteration of the loop over the sections. \<open>toLowerCase\<close> stands for
  \<open>String.prototype.toLowerCase\<close>, whose Unicode case mapping is taken as a parameter.\<close>

definition parseStep :: "(jstring \<Rightarrow> jstring) \<Rightarrow> parseState \<Rightarrow> parsedSection \<Rightarrow> parseState" where
  "parseStep toLowerCase st sec =
     (let provisionRef = js ''s'' @ sectionNum sec in
      if provisionRef \<in> seenRefs st then st
      else
        (let st1 = st\<lparr>seenRefs := insert provisionRef (seenRefs st)\<rparr>;
             content = extractSectionContent (bodyHtml sec)
         in if length content < 5 then st1
            else
              (let st2 = st1\<lparr>ps_provisions := ps_provisions st1 @
                           [\<lparr>provision_ref = provisionRef, p_chapter = partContext sec,
                             p_section = sectionNum sec, p_title = sectionTitle sec,
                             p_content = content\<rparr>]\<rparr>;
                   lowerTitle = toLowerCase (sectionTitle sec)
               in if includes_str lowerTitle (js ''interpretation'')
                      \<or> includes_str lowerTitle (js ''definition'')
                      \<or> lowerTitle = js ''definitions''
                  then st2\<lparr>ps_definitions := ps_definitions st2 @
                             extractDefinitions (bodyHtml sec) provisionRef\<rparr>
                  else st2)))"

definition parseLoop :: "(jstring \<Rightarrow> jstring) \<Rightarrow> parsedSection list \<Rightarrow> parseState" where
  "parseLoop toLowerCase secs =
     foldl (parseStep toLowerCase) \<lparr>ps_provisions = [], ps_definitions = [], seenRefs = {}\<rparr> secs"

definition parseAustralianHtml :: "(jstring \<Rightarrow> jstring) \<Rightarrow> jstring \<Rightarrow> parsedAct" where
  "parseAustralianHtml toLowerCase html =
     (let st = parseLoop toLowerCase (splitIntoSections html)
      in \<lparr>provisions = ps_provisions st, definitions = ps_definitions st\<rparr>)"

text \<open>The ASCII part of \<open>toLowerCase\<close>, for concrete runs on ASCII titles.\<close>

definition lowerAscii :: "jstring \<Rightarrow> jstring" where
  "lowerAscii s = map (\<lambda>c. if 65 \<le> c \<and> c \<le> 90 then c + 32 else c) s"

section \<open>Notions used in the statements\<close>

text \<open>The spans of a heading list lie in order between \<open>lo\<close> and \<open>hi\<close>, each heading
  non-empty and none overlapping the next.\<close>

fun spansOk :: "nat \<Rightarrow> nat \<Rightarrow> heading list \<Rightarrow> bool" where
  "spansOk lo hi [] = (lo \<le> hi)"
| "spansOk lo hi (h # hs) = (lo \<le> h_index h \<and> h_index h < h_end h \<and> spansOk (h_end h) hi hs)"

text \<open>A heading that the loop of \<open>splitIntoSections\<close> turns into a section.\<close>

definition isSectionHeading :: "heading \<Rightarrow> bool" where
  "isSectionHeading h =
     ((levelOf (h_class h) = 5 \<or> levelOf (h_class h) = 9) \<and> sectRegex (h_text h) \<noteq> None)"

text \<open>A context label is present when it is neither \<open>undefined\<close> nor the empty string.\<close>

definition present :: "jstring option \<Rightarrow> bool" where
  "present x = (x \<noteq> None \<and> x \<noteq> Some [])"

text \<open>The normalized level in the words of the specification: the trailing digit of the
  class, with 9 folded into 5 (0 when the class does not end in a digit).\<close>

definition normalizedLevel :: "jstring \<Rightarrow> nat" where
  "normalizedLevel cl =
     (case rev cl of
        [] \<Rightarrow> 0
      | c # _ \<Rightarrow> if c = 57 then 5 else if 48 \<le> c \<and> c \<le> 56 then c - 48 else 0)"

text \<open>The context tracker in the words of the specification, as a fold over the headings in
  document order: a heading of level 1 or 2 sets the part and empties the division, a
  heading of level 3 or 4 sets the division, any other heading leaves the context. The
  label of a context joins part and division by \<open>" > "\<close> when both are present, is the
  present one when only one is, and is \<open>undefined\<close> when neither is.\<close>

definition trackStep :: "jstring option \<times> jstring option \<Rightarrow> heading \<Rightarrow> jstring option \<times> jstring option" where
  "trackStep ctx h =
     (if levelOf (h_class h) = 1 \<or> levelOf (h_class h) = 2 then (Some (h_text h), None)
      else if levelOf (h_class h) = 3 \<or> levelOf (h_class h) = 4 then (fst ctx, Some (h_text h))
      else ctx)"

definition contextLabel :: "jstring option \<times> jstring option \<Rightarrow> jstring option" where
  "contextLabel ctx =
     (if present (fst ctx) \<and> present (snd ctx) then Some (the (fst ctx) @ js '' > '' @ the (snd ctx))
      else if present (fst ctx) then Some (the (fst ctx))
      else if present (snd ctx) then Some (the (snd ctx))
      else None)"


section \<open>Example documents\<close>

definition emptyState :: parseState where
  "emptyState = \<lparr>ps_provisions = [], ps_definitions = [], seenRefs = {}\<rparr>"

definition initialSplit :: splitState where
  "initialSplit = \<lparr>currentPart = None, currentDivision = None, sections = []\<rparr>"

definition exampleAct :: jstring where
  "exampleAct = js ''<p class=\"ActHead2\">Part I</p><p class=\"ActHead5\">6 Interpretation</p><p class=\"Definition\"><b>data</b> means facts.</p>''"

definition shortDefinitionsSection :: parsedSection where
  "shortDefinitionsSection =
     \<lparr>sectionNum = js ''6'', sectionTitle = js ''Definitions'',
       bodyHtml = js ''<p class=\"Definition\"><b>ab</b></p>'',
       partContext = None, position = 0\<rparr>"

definition dupHtml :: jstring where
  "dupHtml = js ''<p class=\"New5\">1 A</p><p class=\"New5\">1 B</p>hello world!''"

definition dupHeadingA :: heading where
  "dupHeadingA = \<lparr>h_class = js ''New5'', h_text = js ''1 A'', h_index = 0, h_end = 23\<rparr>"

definition dupHeadingB :: heading where
  "dupHeadingB = \<lparr>h_class = js ''New5'', h_text = js ''1 B'', h_index = 23, h_end = 46\<rparr>"

definition dupFirst :: parsedSection where
  "dupFirst = \<lparr>sectionNum = js ''1'', sectionTitle = js ''A'', bodyHtml = [],
                partContext = None, position = 0\<rparr>"

definition dupSecond :: parsedSection where
  "dupSecond = \<lparr>sectionNum = js ''1'', sectionTitle = js ''B'', bodyHtml = js ''hello world!'',
                 partContext = None, position = 23\<rparr>"

definition plain50 :: parsedSection where
  "plain50 = \<lparr>sectionNum = js ''1'', sectionTitle = js ''A'',
               bodyHtml = js ''<p>The Minister may make rules about those provisions</p>'',
               partContext = None, position = 0\<rparr>"

definition plain8 :: parsedSection where
  "plain8 = \<lparr>sectionNum = js ''2'', sectionTitle = js ''B'',
              bodyHtml = js ''<p>Repealed</p>'', partContext = None, position = 0\<rparr>"

definition legacyHtml :: jstring where
  "legacyHtml = js ''<p class=\"Heading9\">1 A</p>x''"

definition legacyHeading :: heading where
  "legacyHeading = \<lparr>h_class = js ''Heading9'', h_text = js ''1 A'', h_index = 0, h_end = 27\<rparr>"

definition trackedState :: splitState where
  "trackedState = \<lparr>currentPart = Some (js ''Part I''), currentDivision = Some (js ''Division 2''),
                    sections = []\<rparr>"

definition partHeading :: heading where
  "partHeading = \<lparr>h_class = js ''ActHead2'', h_text = js ''Part II'', h_index = 0, h_end = 31\<rparr>"

definition divisionHeading :: heading where
  "divisionHeading = \<lparr>h_class = js ''ActHead3'', h_text = js ''Division 3'', h_index = 0, h_end = 34\<rparr>"

definition sectionHeading :: heading where
  "sectionHeading = \<lparr>h_class = js ''ActHead5'', h_text = js ''7 Objects'', h_index = 0, h_end = 33\<rparr>"

definition scheduleHtml :: jstring where
  "scheduleHtml = js ''<p class=\"ActHead5\">&mdash;Schedule&mdash;</p>note<p class=\"ActHead5\">1 A</p>hello world!''"

definition scheduleHeading :: heading where
  "scheduleHeading = \<lparr>h_class = js ''ActHead5'', h_text = [8212] @ js ''Schedule'' @ [8212],
                       h_index = 0, h_end = 46\<rparr>"

definition goodHeading :: heading where
  "goodHeading = \<lparr>h_class = js ''ActHead5'', h_text = js ''1 A'', h_index = 50, h_end = 77\<rparr>"


definition spanHtml :: jstring where
  "spanHtml = js ''<p class=\"New5\">1 A</p>xy<p class=\"New2\">P</p>z''"

definition spanHeadingA :: heading where
  "spanHeadingA = \<lparr>h_class = js ''New5'', h_text = js ''1 A'', h_index = 0, h_end = 23\<rparr>"

definition spanHeadingP :: heading where
  "spanHeadingP = \<lparr>h_class = js ''New2'', h_text = js ''P'', h_index = 25, h_end = 46\<rparr>"

definition spanSection :: parsedSection where
  "spanSection = \<lparr>sectionNum = js ''1'', sectionTitle = js ''A'', bodyHtml = js ''xy'',
                   partContext = None, position = 0\<rparr>"

definition zeroHtml :: jstring where
  "zeroHtml = js ''<p class=\"ActHead5\">1 A</p><p class=\"ActHead0\">hidden heading text</p>''"

definition zeroHeading :: heading where
  "zeroHeading = \<lparr>h_class = js ''ActHead5'', h_text = js ''1 A'', h_index = 0, h_end = 27\<rparr>"

definition legacySection :: parsedSection where
  "legacySection = \<lparr>sectionNum = js ''1'', sectionTitle = js ''A'', bodyHtml = js ''x'',
                     partContext = None, position = 0\<rparr>"

definition ctxHtml :: jstring where
  "ctxHtml = js ''<p class=\"New2\">P</p><p class=\"New3\">D</p><p class=\"New5\">1 A</p><p class=\"New1\">Q</p><p class=\"New5\">2 B</p>''"

definition ctxHeadings :: "heading list" where
  "ctxHeadings =
     [\<lparr>h_class = js ''New2'', h_text = js ''P'', h_index = 0, h_end = 21\<rparr>,
      \<lparr>h_class = js ''New3'', h_text = js ''D'', h_index = 21, h_end = 42\<rparr>,
      \<lparr>h_class = js ''New5'', h_text = js ''1 A'', h_index = 42, h_end = 65\<rparr>,
      \<lparr>h_class = js ''New1'', h_text = js ''Q'', h_index = 65, h_end = 86\<rparr>]"

definition ctxHeadingB :: heading where
  "ctxHeadingB = \<lparr>h_class = js ''New5'', h_text = js ''2 B'', h_index = 86, h_end = 109\<rparr>"

definition ctxSections :: "parsedSection list" where
  "ctxSections =
     [\<lparr>sectionNum = js ''1'', sectionTitle = js ''A'', bodyHtml = [],
        partContext = Some (js ''P > D''), position = 42\<rparr>,
      \<lparr>sectionNum = js ''2'', sectionTitle = js ''B'', bodyHtml = [],
        partContext = Some (js ''Q''), position = 86\<rparr>]"

section \<open>The scanner and the section loop\<close>

lemma spansOk_le: "spansOk lo hi hs \<Longrightarrow> lo \<le> hi"
  by (induction hs arbitrary: lo) fastforce+

lemma spansOk_mono: "spansOk lo hi hs \<Longrightarrow> lo' \<le> lo \<Longrightarrow> spansOk lo' hi hs"
  by (cases hs) auto

lemma scanHeadings_spans: "spansOk off (off + length s) (scanHeadings off s)"
proof (induction off s rule: scanHeadings.induct)
  case (1 off)
  then show ?case by simp
next
  case (2 off c cs)
  show ?case
  proof (cases "headingRegex (c # cs)")
    case None
    with 2 have "spansOk (Suc off) (Suc off + length cs) (scanHeadings (Suc off) cs)" by simp
    then have "spansOk off (off + length (c # cs)) (scanHeadings (Suc off) cs)"
      by (auto intro: spansOk_mono)
    with None show ?thesis by simp
  next
    case (Some m)
    obtain cl inner rest where m: "m = (cl, inner, rest)" by (cases m)
    from Some m have len: "length rest + 2 \<le> length (c # cs)"
      by (auto dest: headingRegex_shorter)
    let ?e = "off + (length (c # cs) - length rest)"
    from "2.IH"(2) Some m
    have "spansOk ?e (?e + length rest) (scanHeadings ?e rest)" by simp
    moreover from len have "?e + length rest = off + length (c # cs)" by simp
    ultimately have "spansOk ?e (off + length (c # cs)) (scanHeadings ?e rest)" by simp
    with Some m len show ?thesis by simp
  qed
qed

lemma spansOk_append:
  "spansOk lo hi (pre @ h # post) \<Longrightarrow>
     h_index h < h_end h \<and> h_end h \<le> (case post of [] \<Rightarrow> hi | n # _ \<Rightarrow> h_index n) \<and>
     (case post of [] \<Rightarrow> hi | n # _ \<Rightarrow> h_index n) \<le> hi"
proof (induction pre arbitrary: lo)
  case Nil
  then show ?case by (cases post) (auto dest: spansOk_le)
next
  case (Cons a pre)
  then show ?case by auto
qed

lemma spansOk_lower: "spansOk lo hi hs \<Longrightarrow> h \<in> set hs \<Longrightarrow> lo \<le> h_index h"
proof (induction hs arbitrary: lo)
  case Nil
  then show ?case by simp
next
  case (Cons a hs)
  then show ?case by fastforce
qed

lemma spansOk_sorted: "spansOk lo hi hs \<Longrightarrow> sorted_wrt (<) (map h_index hs)"
proof (induction hs arbitrary: lo)
  case Nil
  then show ?case by simp
next
  case (Cons a hs)
  then have "\<forall>h \<in> set hs. h_index a < h_index h"
    by (fastforce dest: spansOk_lower)
  with Cons show ?case by auto
qed

lemma splitStep_positions:
  "map position (sections (splitStep html n st h)) =
     map position (sections st) @ (if isSectionHeading h then [h_index h] else [])"
  by (auto simp: splitStep_def Let_def isSectionHeading_def split: option.splits)

lemma splitLoop_positions:
  "map position (sections (splitLoop html st hs)) =
     map position (sections st) @ map h_index (filter isSectionHeading hs)"
  by (induction hs arbitrary: st) (simp_all add: splitStep_positions)

lemma splitIntoSections_sorted: "sorted_wrt (<) (map position (splitIntoSections html))"
proof -
  have "sorted_wrt (<) (map h_index (scanHeadings 0 html))"
    using scanHeadings_spans [of 0 html] by (rule spansOk_sorted)
  then have "sorted_wrt (<) (map h_index (filter isSectionHeading (scanHeadings 0 html)))"
    by (simp add: sorted_wrt_map sorted_wrt_filter)
  then show ?thesis by (simp add: splitIntoSections_def splitLoop_positions)
qed

lemma splitStep_sections:
  "sections (splitStep html n st h) = sections st \<or>
   (\<exists>num title. sections (splitStep html n st h) = sections st @
      [\<lparr>sectionNum = num, sectionTitle = title, bodyHtml = substring html (h_end h) n,
        partContext = buildPartContext (currentPart st) (currentDivision st),
        position = h_index h\<rparr>])"
  by (auto simp: splitStep_def Let_def split: option.splits)

lemma splitStep_mono: "set (sections st) \<subseteq> set (sections (splitStep html n st h))"
  using splitStep_sections [of html n st h] by auto

lemma splitLoop_mono: "set (sections st) \<subseteq> set (sections (splitLoop html st hs))"
proof (induction hs arbitrary: st)
  case Nil
  then show ?case by simp
next
  case (Cons a hs)
  from splitStep_mono Cons [of "splitStep html (nextIndex html hs) st a"]
  show ?case by (simp del: splitLoop.simps add: splitLoop.simps(2)) blast
qed

lemma splitLoop_emits:
  assumes "levelOf (h_class h) = 5 \<or> levelOf (h_class h) = 9"
    and "sectRegex (h_text h) = Some (num, title)"
  shows "\<exists>sec \<in> set (sections (splitLoop html st (pre @ h # post))).
           position sec = h_index h \<and> sectionNum sec = num \<and> sectionTitle sec = trim title
           \<and> bodyHtml sec = substring html (h_end h) (nextIndex html post)"
proof (induction pre arbitrary: st)
  case Nil
  let ?sec = "\<lparr>sectionNum = num, sectionTitle = trim title,
                 bodyHtml = substring html (h_end h) (nextIndex html post),
                 partContext = buildPartContext (currentPart st) (currentDivision st),
                 position = h_index h\<rparr>"
  from assms have "?sec \<in> set (sections (splitStep html (nextIndex html post) st h))"
    by (auto simp: splitStep_def Let_def)
  with splitLoop_mono [of "splitStep html (nextIndex html post) st h" html post]
  have "?sec \<in> set (sections (splitLoop html st ([] @ h # post)))" by auto
  then show ?case by (intro bexI [of _ ?sec]) simp_all
next
  case (Cons a pre)
  then show ?case by simp
qed

lemma splitLoop_origin:
  "sec \<in> set (sections (splitLoop html st hs)) \<Longrightarrow>
     sec \<in> set (sections st) \<or>
     (\<exists>pre h post. hs = pre @ h # post \<and> position sec = h_index h
        \<and> bodyHtml sec = substring html (h_end h) (nextIndex html post))"
proof (induction hs arbitrary: st)
  case Nil
  then show ?case by simp
next
  case (Cons a hs)
  let ?st = "splitStep html (nextIndex html hs) st a"
  from Cons.prems have "sec \<in> set (sections (splitLoop html ?st hs))" by simp
  from Cons.IH [OF this] show ?case
  proof
    assume "sec \<in> set (sections ?st)"
    with splitStep_sections [of html "nextIndex html hs" st a]
    consider "sec \<in> set (sections st)"
      | "position sec = h_index a" "bodyHtml sec = substring html (h_end a) (nextIndex html hs)"
      by auto
    then show ?thesis
    proof cases
      case 1
      then show ?thesis by simp
    next
      case 2
      then have "a # hs = [] @ a # hs \<and> position sec = h_index a
        \<and> bodyHtml sec = substring html (h_end a) (nextIndex html hs)" by simp
      then show ?thesis by blast
    qed
  next
    assume "\<exists>pre h post. hs = pre @ h # post \<and> position sec = h_index h
        \<and> bodyHtml sec = substring html (h_end h) (nextIndex html post)"
    then obtain pre h post where "hs = pre @ h # post" "position sec = h_index h"
      "bodyHtml sec = substring html (h_end h) (nextIndex html post)" by blast
    then have "a # hs = (a # pre) @ h # post \<and> position sec = h_index h
        \<and> bodyHtml sec = substring html (h_end h) (nextIndex html post)" by simp
    then show ?thesis by blast
  qed
qed

lemma distinct_split_unique:
  assumes "distinct (map f xs)" "xs = pre @ h # post" "xs = pre' @ h' # post'" "f h = f h'"
  shows "pre = pre' \<and> h = h' \<and> post = post'"
proof -
  have i: "map f xs ! length pre = f h" "length pre < length (map f xs)"
    using assms(2) by (simp_all add: nth_append)
  have j: "map f xs ! length pre' = f h'" "length pre' < length (map f xs)"
    using assms(3) by (simp_all add: nth_append)
  from i j assms(4) nth_eq_iff_index_eq [OF assms(1), of "length pre" "length pre'"]
  have "length pre = length pre'" by simp
  moreover from assms(2,3) have "pre @ h # post = pre' @ h' # post'" by simp
  ultimately show ?thesis by simp
qed

lemma substring_span:
  "a \<le> b \<Longrightarrow> b \<le> length s \<Longrightarrow> substring s a b = take (b - a) (drop a s)"
  by (simp add: substring_def Let_def min_def max_def)

section \<open>The class of a scanned heading\<close>

lemma lit_split:
  "lit ci p k s = Some r \<Longrightarrow>
     \<exists>pre s'. s = pre @ s' \<and> list_all2 (sameChar ci) p pre \<and> k s' = Some r"
proof (induction ci p k s rule: lit.induct)
  case (1 ci k s)
  then show ?case by (intro exI [of _ "[]"] exI [of _ s]) simp
next
  case (2 ci p ps k)
  then show ?case by simp
next
  case (3 ci p ps k c cs)
  then have same: "sameChar ci p c" and "lit ci ps k cs = Some r"
    by (auto split: if_splits)
  with "3.IH" obtain pre s' where "cs = pre @ s'" "list_all2 (sameChar ci) ps pre" "k s' = Some r"
    by blast
  with same show ?case by (intro exI [of _ "c # pre"] exI [of _ s']) simp
qed

lemma cls_split: "cls P k s = Some r \<Longrightarrow> \<exists>c s'. s = c # s' \<and> P c \<and> k s' = Some r"
  by (cases s) (auto split: if_splits)

lemma sameChar_upper:
  "list_all2 (sameChar True) p pre \<Longrightarrow> map upperAscii pre = map upperAscii p"
  by (induction rule: list_all2_induct) (simp_all add: sameChar_def)

lemma heading_tail_class:
  assumes "lit True [34] (starG notGt (lit True (js ''>'')
             (grp (starL anyChar)
               (\<lambda>inner. lit True (js ''</p>'') (\<lambda>rest. Some (c, inner, rest)))))) s
           = Some (cl, inner', rest')"
  shows "c = cl"
  using assms unfolding grp_def
  by (fastforce dest!: lit_Some starG_Some starL_Some)

lemma headingRegex_class:
  assumes "headingRegex s = Some (cl, inner, rest)"
  shows "\<exists>fam d. cl = fam @ [d] \<and> digit19 d
           \<and> map upperAscii fam \<in> {js ''ACTHEAD'', js ''NEW'', js ''HEADING''}"
proof -
  let ?K2 = "\<lambda>c. lit True [34] (starG notGt (lit True (js ''>'')
             (grp (starL anyChar)
               (\<lambda>inner. lit True (js ''</p>'') (\<lambda>rest. Some (c, inner, rest))))))"
  let ?G = "\<lambda>k. alts [lit True (js ''ActHead''), lit True (js ''New''), lit True (js ''Heading'')]
                   (cls digit19 k)"
  from assms obtain s1 where
    "starG notGt (lit True (js ''class='' @ [34]) (grp ?G ?K2)) s1 = Some (cl, inner, rest)"
    unfolding headingRegex_def by (blast dest: lit_Some)
  then obtain s2 where
    "lit True (js ''class='' @ [34]) (grp ?G ?K2) s2 = Some (cl, inner, rest)"
    by (blast dest: starG_Some)
  then obtain s3 where "grp ?G ?K2 s3 = Some (cl, inner, rest)"
    by (blast dest: lit_Some)
  then obtain a where a: "a \<in> set [lit True (js ''ActHead''), lit True (js ''New''), lit True (js ''Heading'')]"
    and m: "a (cls digit19 (\<lambda>s'. ?K2 (capture s3 s') s')) s3 = Some (cl, inner, rest)"
    unfolding grp_def by (blast dest: alts_Some)
  from a obtain p where p: "p \<in> {js ''ActHead'', js ''New'', js ''Heading''}" and ap: "a = lit True p"
    by auto
  from m ap obtain fam s4 where s3: "s3 = fam @ s4" and fam: "list_all2 (sameChar True) p fam"
    and "cls digit19 (\<lambda>s'. ?K2 (capture s3 s') s') s4 = Some (cl, inner, rest)"
    by (blast dest: lit_split)
  then obtain d s5 where s4: "s4 = d # s5" and d: "digit19 d"
    and k2: "?K2 (capture s3 s5) s5 = Some (cl, inner, rest)"
    by (blast dest: cls_split)
  from s3 s4 have "capture s3 s5 = fam @ [d]" by (simp add: capture_def)
  with k2 have "cl = fam @ [d]" by (auto dest: heading_tail_class)
  moreover from fam p have "map upperAscii fam \<in> {js ''ACTHEAD'', js ''NEW'', js ''HEADING''}"
    by (auto dest!: sameChar_upper simp: js_def upperAscii_def)
  ultimately show ?thesis using d by blast
qed

lemma scanHeadings_class:
  "h \<in> set (scanHeadings off s) \<Longrightarrow>
     \<exists>fam d. h_class h = fam @ [d] \<and> digit19 d
           \<and> map upperAscii fam \<in> {js ''ACTHEAD'', js ''NEW'', js ''HEADING''}"
proof (induction off s rule: scanHeadings.induct)
  case (1 off)
  then show ?case by simp
next
  case (2 off c cs)
  show ?case
  proof (cases "headingRegex (c # cs)")
    case None
    with 2 show ?thesis by simp
  next
    case (Some m)
    obtain cl inner rest where m: "m = (cl, inner, rest)" by (cases m)
    from "2.prems" Some m
    consider "h_class h = cl"
      | "h \<in> set (scanHeadings (off + (length (c # cs) - length rest)) rest)"
      by auto
    then show ?thesis
    proof cases
      case 1
      with Some m headingRegex_class [of "c # cs" cl inner rest] show ?thesis by simp
    next
      case 2
      from "2.IH"(2) [OF Some m [symmetric] refl this] show ?thesis .
    qed
  qed
qed

lemma levelOf_digit: "digit19 d \<Longrightarrow> levelOf (fam @ [d]) = d - 48"
  by (simp add: levelOf_def digit19_def isDigit_def)

section \<open>Heading spans are matches of the heading expression\<close>

lemma starG_suffix: "starG P k s = Some r \<Longrightarrow> \<exists>pre s'. s = pre @ s' \<and> k s' = Some r"
proof (induction s)
  case Nil
  then show ?case by auto
next
  case (Cons c cs)
  show ?case
  proof (cases "P c \<and> starG P k cs \<noteq> None")
    case True
    then obtain r' where r': "starG P k cs = Some r'" by auto
    with True Cons.prems have "r' = r" by simp
    with r' Cons.IH obtain pre s' where "cs = pre @ s'" "k s' = Some r" by auto
    then show ?thesis by (intro exI [of _ "c # pre"] exI [of _ s']) simp
  next
    case False
    with Cons.prems have "k (c # cs) = Some r" by (auto split: if_splits option.splits)
    then show ?thesis by (intro exI [of _ "[]"] exI [of _ "c # cs"]) simp
  qed
qed

lemma starL_suffix: "starL P k s = Some r \<Longrightarrow> \<exists>pre s'. s = pre @ s' \<and> k s' = Some r"
proof (induction s)
  case Nil
  then show ?case by auto
next
  case (Cons c cs)
  show ?case
  proof (cases "k (c # cs)")
    case (Some r')
    with Cons.prems have "k (c # cs) = Some r" by simp
    then show ?thesis by (intro exI [of _ "[]"] exI [of _ "c # cs"]) simp
  next
    case None
    with Cons.prems have "starL P k cs = Some r" by (auto split: if_splits)
    with Cons.IH obtain pre s' where "cs = pre @ s'" "k s' = Some r" by auto
    then show ?thesis by (intro exI [of _ "c # pre"] exI [of _ s']) simp
  qed
qed

lemma lit_suffix: "lit ci p k s = Some r \<Longrightarrow> \<exists>pre s'. s = pre @ s' \<and> k s' = Some r"
  by (blast dest: lit_split)

lemma headingRegex_suffix:
  assumes "headingRegex s = Some (cl, inner, rest)"
  shows "\<exists>pre. s = pre @ rest"
proof -
  let ?K3 = "\<lambda>c inner. lit True (js ''</p>'') (\<lambda>rest. Some (c, inner, rest))"
  let ?K2 = "\<lambda>c. lit True [34] (starG notGt (lit True (js ''>'') (grp (starL anyChar) (?K3 c))))"
  let ?G = "\<lambda>k. alts [lit True (js ''ActHead''), lit True (js ''New''), lit True (js ''Heading'')]
                   (cls digit19 k)"
  from assms obtain p1 s1 where s1: "s = p1 @ s1"
    "starG notGt (lit True (js ''class='' @ [34]) (grp ?G ?K2)) s1 = Some (cl, inner, rest)"
    unfolding headingRegex_def by (blast dest: lit_suffix)
  then obtain p2 s2 where s2: "s1 = p2 @ s2"
    "lit True (js ''class='' @ [34]) (grp ?G ?K2) s2 = Some (cl, inner, rest)"
    by (blast dest: starG_suffix)
  then obtain p3 s3 where s3: "s2 = p3 @ s3" "grp ?G ?K2 s3 = Some (cl, inner, rest)"
    by (blast dest: lit_suffix)
  then obtain a where a: "a \<in> set [lit True (js ''ActHead''), lit True (js ''New''), lit True (js ''Heading'')]"
    and m: "a (cls digit19 (\<lambda>s'. ?K2 (capture s3 s') s')) s3 = Some (cl, inner, rest)"
    unfolding grp_def by (blast dest: alts_Some)
  from a obtain p where ap: "a = lit True p" by auto
  from m ap obtain p4 s4 where s4: "s3 = p4 @ s4"
    "cls digit19 (\<lambda>s'. ?K2 (capture s3 s') s') s4 = Some (cl, inner, rest)"
    by (blast dest: lit_suffix)
  then obtain d s5 where s5: "s4 = d # s5" "?K2 (capture s3 s5) s5 = Some (cl, inner, rest)"
    by (blast dest: cls_split)
  then obtain p6 s6 where s6: "s5 = p6 @ s6"
    "starG notGt (lit True (js ''>'') (grp (starL anyChar) (?K3 (capture s3 s5)))) s6 = Some (cl, inner, rest)"
    by (blast dest: lit_suffix)
  then obtain p7 s7 where s7: "s6 = p7 @ s7"
    "lit True (js ''>'') (grp (starL anyChar) (?K3 (capture s3 s5))) s7 = Some (cl, inner, rest)"
    by (blast dest: starG_suffix)
  then obtain p8 s8 where s8: "s7 = p8 @ s8"
    "grp (starL anyChar) (?K3 (capture s3 s5)) s8 = Some (cl, inner, rest)"
    by (blast dest: lit_suffix)
  then obtain p9 s9 where s9: "s8 = p9 @ s9"
    "?K3 (capture s3 s5) (capture s8 s9) s9 = Some (cl, inner, rest)"
    unfolding grp_def by (blast dest: starL_suffix)
  then obtain p10 s10 where s10: "s9 = p10 @ s10" "Some (capture s3 s5, capture s8 s9, s10) = Some (cl, inner, rest)"
    by (blast dest: lit_suffix)
  then have "rest = s10" by simp
  with s1(1) s2(1) s3(1) s4(1) s5(1) s6(1) s7(1) s8(1) s9(1) s10(1)
  have "s = (p1 @ p2 @ p3 @ p4 @ d # p6 @ p7 @ p8 @ p9 @ p10) @ rest" by simp
  then show ?thesis by blast
qed

lemma headingRegex_rest:
  assumes "headingRegex s = Some (cl, inner, rest)"
  shows "rest = drop (length s - length rest) s"
proof -
  from headingRegex_suffix [OF assms] obtain pre where "s = pre @ rest" by blast
  then show ?thesis by (metis add_diff_cancel_right' append_eq_conv_conj length_append)
qed

lemma headingRegex_Nil: "headingRegex [] = None"
  by (simp add: headingRegex_def js_def)

lemma scanHeadings_marker:
  "h \<in> set (scanHeadings off s) \<Longrightarrow>
     off \<le> h_index h \<and>
     (\<exists>cl inner rest. headingRegex (drop (h_index h - off) s) = Some (cl, inner, rest)
        \<and> h_end h = off + length s - length rest \<and> h_class h = cl \<and> h_text h = stripHtml inner)"
proof (induction off s rule: scanHeadings.induct)
  case (1 off)
  then show ?case by simp
next
  case (2 off c cs)
  show ?case
  proof (cases "headingRegex (c # cs)")
    case None
    with "2.prems" have "h \<in> set (scanHeadings (Suc off) cs)" by simp
    from "2.IH"(1) [OF None this] obtain cl inner rest where
      le: "Suc off \<le> h_index h"
      and m: "headingRegex (drop (h_index h - Suc off) cs) = Some (cl, inner, rest)"
      and e: "h_end h = Suc off + length cs - length rest" "h_class h = cl" "h_text h = stripHtml inner"
      by blast
    from le have "drop (h_index h - off) (c # cs) = drop (h_index h - Suc off) cs"
      by (simp add: Suc_diff_le drop_Cons')
    with le m e show ?thesis by auto
  next
    case (Some m)
    obtain cl inner rest where m: "m = (cl, inner, rest)" by (cases m)
    let ?e = "off + (length (c # cs) - length rest)"
    from Some m have len: "length rest + 2 \<le> length (c # cs)"
      by (auto dest: headingRegex_shorter)
    from "2.prems" Some m
    consider "h = \<lparr>h_class = cl, h_text = stripHtml inner, h_index = off, h_end = ?e\<rparr>"
      | "h \<in> set (scanHeadings ?e rest)"
      by auto
    then show ?thesis
    proof cases
      case 1
      with Some m len show ?thesis by auto
    next
      case 2
      from "2.IH"(2) [OF Some m [symmetric] refl 2] obtain cl' inner' rest' where
        le: "?e \<le> h_index h"
        and m': "headingRegex (drop (h_index h - ?e) rest) = Some (cl', inner', rest')"
        and e: "h_end h = ?e + length rest - length rest'" "h_class h = cl'" "h_text h = stripHtml inner'"
        by blast
      from Some m have "headingRegex (c # cs) = Some (cl, inner, rest)" by simp
      then have r: "rest = drop (length (c # cs) - length rest) (c # cs)"
        by (rule headingRegex_rest)
      have "drop (h_index h - ?e) rest = drop (h_index h - ?e) (drop (length (c # cs) - length rest) (c # cs))"
        using r by simp
      also have "\<dots> = drop (h_index h - off) (c # cs)"
        using le by (simp del: drop.simps length_Cons add: add.commute)
      finally have d: "drop (h_index h - ?e) rest = drop (h_index h - off) (c # cs)" .
      from len have "?e + length rest = off + length (c # cs)" by simp
      with le m' e d show ?thesis by auto
    qed
  qed
qed

lemma scanHeadings_leading_gap:
  "off \<le> i \<Longrightarrow>
   i < (case scanHeadings off s of [] \<Rightarrow> off + length s | n # _ \<Rightarrow> h_index n) \<Longrightarrow>
   headingRegex (drop (i - off) s) = None"
proof (induction off s rule: scanHeadings.induct)
  case (1 off)
  then show ?case by (simp add: headingRegex_Nil)
next
  case (2 off c cs)
  show ?case
  proof (cases "headingRegex (c # cs)")
    case None
    show ?thesis
    proof (cases "i = off")
      case True
      with None show ?thesis by simp
    next
      case False
      with "2.prems" have le: "Suc off \<le> i" by simp
      from "2.prems"(2) None
      have "i < (case scanHeadings (Suc off) cs of [] \<Rightarrow> Suc off + length cs | n # _ \<Rightarrow> h_index n)"
        by (simp split: list.splits)
      from "2.IH"(1) [OF None le this] le show ?thesis
        by (simp add: Suc_diff_le drop_Cons')
    qed
  next
    case (Some m)
    obtain cl inner rest where m: "m = (cl, inner, rest)" by (cases m)
    with Some "2.prems" show ?thesis by simp
  qed
qed

lemma scanHeadings_gap:
  "scanHeadings off s = pre @ h # post \<Longrightarrow> h_end h \<le> i \<Longrightarrow>
   i < (case post of [] \<Rightarrow> off + length s | n # _ \<Rightarrow> h_index n) \<Longrightarrow>
   headingRegex (drop (i - off) s) = None"
proof (induction off s arbitrary: pre rule: scanHeadings.induct)
  case (1 off)
  then show ?case by simp
next
  case (2 off c cs)
  have ok: "spansOk off (off + length (c # cs)) (pre @ h # post)"
    using scanHeadings_spans [of off "c # cs"] "2.prems"(1) by simp
  show ?case
  proof (cases "headingRegex (c # cs)")
    case None
    with "2.prems"(1) have scan: "scanHeadings (Suc off) cs = pre @ h # post" by simp
    have "spansOk (Suc off) (Suc off + length cs) (pre @ h # post)"
      using scanHeadings_spans [of "Suc off" cs] scan by simp
    then have "Suc off \<le> h_index h" by (auto dest: spansOk_lower)
    moreover from ok have "h_index h < h_end h" by (auto dest: spansOk_append)
    ultimately have le: "Suc off \<le> i" using "2.prems"(2) by simp
    from "2.prems"(3) have "i < (case post of [] \<Rightarrow> Suc off + length cs | n # _ \<Rightarrow> h_index n)"
      by (simp split: list.splits)
    from "2.IH"(1) [OF None scan "2.prems"(2) this] le show ?thesis
      by (simp add: Suc_diff_le drop_Cons')
  next
    case (Some m)
    obtain cl inner rest where m: "m = (cl, inner, rest)" by (cases m)
    let ?e = "off + (length (c # cs) - length rest)"
    let ?h0 = "\<lparr>h_class = cl, h_text = stripHtml inner, h_index = off, h_end = ?e\<rparr>"
    from Some m have hr: "headingRegex (c # cs) = Some (cl, inner, rest)" by simp
    then have len: "length rest + 2 \<le> length (c # cs)" by (rule headingRegex_shorter)
    from hr have r: "rest = drop (length (c # cs) - length rest) (c # cs)"
      by (rule headingRegex_rest)
    from len have tot: "?e + length rest = off + length (c # cs)" by simp
    from "2.prems"(1) Some m have scan: "?h0 # scanHeadings ?e rest = pre @ h # post" by simp
    have conv: "drop (i - ?e) rest = drop (i - off) (c # cs)" if "?e \<le> i"
    proof -
      have "drop (i - ?e) rest = drop (i - ?e) (drop (length (c # cs) - length rest) (c # cs))"
        using r by simp
      also have "\<dots> = drop (i - off) (c # cs)"
        using that by (simp del: drop.simps length_Cons add: add.commute)
      finally show ?thesis .
    qed
    show ?thesis
    proof (cases pre)
      case Nil
      with scan have h: "h = ?h0" and post: "post = scanHeadings ?e rest" by simp_all
      from h "2.prems"(2) have le: "?e \<le> i" by simp
      from "2.prems"(3) post tot
      have "i < (case scanHeadings ?e rest of [] \<Rightarrow> ?e + length rest | n # _ \<Rightarrow> h_index n)"
        by (simp split: list.splits)
      from scanHeadings_leading_gap [OF le this] conv [OF le] show ?thesis by simp
    next
      case (Cons a pre')
      with scan have scan': "scanHeadings ?e rest = pre' @ h # post" by simp
      have "spansOk ?e (?e + length rest) (pre' @ h # post)"
        using scanHeadings_spans [of ?e rest] scan' by simp
      then have "?e \<le> h_index h" by (auto dest: spansOk_lower)
      moreover from ok have "h_index h < h_end h" by (auto dest: spansOk_append)
      ultimately have le: "?e \<le> i" using "2.prems"(2) by simp
      from "2.prems"(3) tot
      have "i < (case post of [] \<Rightarrow> ?e + length rest | n # _ \<Rightarrow> h_index n)"
        by (simp split: list.splits)
      from "2.IH"(2) [OF Some m [symmetric] refl scan' "2.prems"(2) this] conv [OF le]
      show ?thesis by simp
    qed
  qed
qed

section \<open>Sections of a document and their headings\<close>

lemma section_span_shared:
  assumes scan: "scanHeadings 0 html = pre @ h # post"
    and lvl: "levelOf (h_class h) = 5 \<or> levelOf (h_class h) = 9"
    and sect: "sectRegex (h_text h) = Some (num, title)"
  shows "(\<exists>sec \<in> set (splitIntoSections html). position sec = h_index h \<and> sectionNum sec = num) \<and>
    (case post of
       [] \<Rightarrow> (\<forall>sec \<in> set (splitIntoSections html). position sec = h_index h \<longrightarrow>
                bodyHtml sec = drop (h_end h) html)
     | n # _ \<Rightarrow> h_end h \<le> h_index n \<and>
            (\<forall>sec \<in> set (splitIntoSections html). position sec = h_index h \<longrightarrow>
               bodyHtml sec = take (h_index n - h_end h) (drop (h_end h) html)))"
proof -
  let ?st0 = "\<lparr>currentPart = None, currentDivision = None, sections = []\<rparr>"
  have ok: "spansOk 0 (length html) (pre @ h # post)"
    using scanHeadings_spans [of 0 html] scan by simp
  then have bounds: "h_end h \<le> nextIndex html post" "nextIndex html post \<le> length html"
    by (auto dest: spansOk_append simp: nextIndex_def)
  from ok have "sorted_wrt (<) (map h_index (pre @ h # post))" by (rule spansOk_sorted)
  then have dist: "distinct (map h_index (pre @ h # post))" by (simp add: strict_sorted_iff)
  from splitLoop_emits [OF lvl sect, of html ?st0 pre post]
  have ex: "\<exists>sec \<in> set (splitIntoSections html). position sec = h_index h \<and> sectionNum sec = num"
    by (auto simp: splitIntoSections_def scan)
  have all: "bodyHtml sec = take (nextIndex html post - h_end h) (drop (h_end h) html)"
    if sec: "sec \<in> set (splitIntoSections html)" and pos: "position sec = h_index h" for sec
  proof -
    from sec have "sec \<in> set (sections (splitLoop html ?st0 (pre @ h # post)))"
      by (simp add: splitIntoSections_def scan)
    from splitLoop_origin [OF this] obtain pre' h' post' where
      split: "pre @ h # post = pre' @ h' # post'" and pos': "position sec = h_index h'"
      and body: "bodyHtml sec = substring html (h_end h') (nextIndex html post')"
      by auto
    from distinct_split_unique [OF dist refl split] pos pos'
    have "h = h'" "post = post'" by simp_all
    with body bounds show ?thesis by (simp add: substring_span)
  qed
  show ?thesis
  proof (cases post)
    case Nil
    with all have "\<forall>sec \<in> set (splitIntoSections html). position sec = h_index h \<longrightarrow>
                bodyHtml sec = drop (h_end h) html"
      by (simp add: nextIndex_def)
    with ex Nil show ?thesis by simp
  next
    case (Cons n post')
    with all bounds have "h_end h \<le> h_index n \<and>
            (\<forall>sec \<in> set (splitIntoSections html). position sec = h_index h \<longrightarrow>
               bodyHtml sec = take (h_index n - h_end h) (drop (h_end h) html))"
      by (simp add: nextIndex_def)
    with ex Cons show ?thesis by simp
  qed
qed

lemma normalizedLevel_levelOf:
  "normalizedLevel cl = (if levelOf cl = 9 then 5 else levelOf cl)"
proof (cases cl rule: rev_cases)
  case Nil
  then show ?thesis by (simp add: normalizedLevel_def levelOf_def)
next
  case (snoc xs c)
  then show ?thesis by (auto simp: normalizedLevel_def levelOf_def isDigit_def)
qed

lemma splitStep_class:
  "normalizedLevel cl' = normalizedLevel (h_class h) \<Longrightarrow>
     splitStep html n st (h\<lparr>h_class := cl'\<rparr>) = splitStep html n st h"
  by (auto simp: normalizedLevel_levelOf splitStep_def Let_def split: if_splits option.splits)

lemma sections_from_headings:
  "sec \<in> set (splitIntoSections html) \<Longrightarrow>
     \<exists>g \<in> set (scanHeadings 0 html). position sec = h_index g \<and> normalizedLevel (h_class g) = 5
        \<and> sectRegex (h_text g) \<noteq> None"
proof -
  assume "sec \<in> set (splitIntoSections html)"
  then have "position sec \<in> set (map position (splitIntoSections html))" by simp
  then have "position sec \<in> h_index ` set (filter isSectionHeading (scanHeadings 0 html))"
    by (simp add: splitIntoSections_def splitLoop_positions)
  then show ?thesis by (auto simp: isSectionHeading_def normalizedLevel_levelOf)
qed

lemma splitStep_context:
  "(currentPart (splitStep html n st a), currentDivision (splitStep html n st a))
     = trackStep (currentPart st, currentDivision st) a"
  by (auto simp: splitStep_def trackStep_def Let_def split: option.splits)

lemma buildPartContext_label: "buildPartContext p d = contextLabel (p, d)"
  by (cases p; cases d) (auto simp: buildPartContext_def contextLabel_def present_def Let_def js_def)

lemma splitLoop_emits_context:
  assumes "levelOf (h_class h) = 5 \<or> levelOf (h_class h) = 9"
    and "sectRegex (h_text h) = Some (num, title)"
  shows "\<exists>sec \<in> set (sections (splitLoop html st (pre @ h # post))).
           position sec = h_index h \<and> sectionNum sec = num
           \<and> partContext sec = contextLabel (foldl trackStep (currentPart st, currentDivision st) pre)"
proof (induction pre arbitrary: st)
  case Nil
  let ?sec = "\<lparr>sectionNum = num, sectionTitle = trim title,
                 bodyHtml = substring html (h_end h) (nextIndex html post),
                 partContext = buildPartContext (currentPart st) (currentDivision st),
                 position = h_index h\<rparr>"
  from assms have "?sec \<in> set (sections (splitStep html (nextIndex html post) st h))"
    by (auto simp: splitStep_def Let_def)
  with splitLoop_mono [of "splitStep html (nextIndex html post) st h" html post]
  have "?sec \<in> set (sections (splitLoop html st ([] @ h # post)))" by auto
  then show ?case by (intro bexI [of _ ?sec]) (simp_all add: buildPartContext_label)
next
  case (Cons a pre)
  let ?st = "splitStep html (nextIndex html (pre @ h # post)) st a"
  from Cons [of ?st] splitStep_context [of html "nextIndex html (pre @ h # post)" st a]
  show ?case by simp
qed

section \<open>The content and definition loops\<close>

lemma contentLoop_none:
  "\<forall>t \<in> set (suffixes s). contentRegex t = None \<Longrightarrow> contentLoop s acc = acc"
  by (induction s) simp_all




section \<open>The assembler loop\<close>

lemma substring_0: "substring s 0 n = take n s"
  by (simp add: substring_def Let_def min_def max_def)

lemma length_extractSectionContent: "length (extractSectionContent body) \<le> 8000"
  by (simp add: extractSectionContent_def Let_def substring_0)

lemma definitionOf_Some:
  assumes "definitionOf raw ref = Some d"
  shows "length (d_definition d) \<le> 4000 \<and> source_provision d = Some ref
         \<and> 1 < length (d_term d) \<and> length (d_term d) < 100"
  using assms
  by (auto simp: definitionOf_def Let_def substring_0 split: option.splits if_splits)

lemma defLoop_set:
  "d \<in> set (defLoop s ref acc) \<Longrightarrow> d \<in> set acc \<or> (\<exists>raw. definitionOf raw ref = Some d)"
proof (induction s ref acc rule: defLoop.induct)
  case (1 ref acc)
  then show ?case by simp
next
  case (2 c cs ref acc)
  show ?case
  proof (cases "defRegex (c # cs)")
    case None
    with 2 show ?thesis by simp
  next
    case (Some m)
    obtain raw rest where m: "m = (raw, rest)" by (cases m)
    from "2.prems" Some m
    have "d \<in> set (defLoop rest ref (case definitionOf raw ref of None \<Rightarrow> acc | Some x \<Rightarrow> acc @ [x]))"
      by simp
    from "2.IH"(2) [OF Some m [symmetric] this]
    show ?thesis by (auto split: option.splits)
  qed
qed

lemma extractDefinitions_set:
  "d \<in> set (extractDefinitions body ref) \<Longrightarrow>
     length (d_definition d) \<le> 4000 \<and> source_provision d = Some ref"
  unfolding extractDefinitions_def by (auto dest!: defLoop_set definitionOf_Some)


lemma parseStep_provisions:
  "ps_provisions (parseStep lower st sec) = ps_provisions st \<or>
   (js ''s'' @ sectionNum sec \<notin> seenRefs st \<and> 5 \<le> length (extractSectionContent (bodyHtml sec)) \<and>
    ps_provisions (parseStep lower st sec) = ps_provisions st @
      [\<lparr>provision_ref = js ''s'' @ sectionNum sec, p_chapter = partContext sec,
        p_section = sectionNum sec, p_title = sectionTitle sec,
        p_content = extractSectionContent (bodyHtml sec)\<rparr>])"
  by (simp add: parseStep_def Let_def)

lemma parseStep_definitions:
  "ps_definitions (parseStep lower st sec) = ps_definitions st \<or>
   (ps_definitions (parseStep lower st sec) =
      ps_definitions st @ extractDefinitions (bodyHtml sec) (js ''s'' @ sectionNum sec) \<and>
    ps_provisions (parseStep lower st sec) = ps_provisions st @
      [\<lparr>provision_ref = js ''s'' @ sectionNum sec, p_chapter = partContext sec,
        p_section = sectionNum sec, p_title = sectionTitle sec,
        p_content = extractSectionContent (bodyHtml sec)\<rparr>])"
  by (simp add: parseStep_def Let_def)

lemma parseStep_seenRefs:
  "seenRefs (parseStep lower st sec) = insert (js ''s'' @ sectionNum sec) (seenRefs st)"
  by (auto simp: parseStep_def Let_def)

lemma parseLoop_snoc: "parseLoop lower (secs @ [sec]) = parseStep lower (parseLoop lower secs) sec"
  by (simp add: parseLoop_def)

lemma parseLoop_Nil:
  "parseLoop lower [] = \<lparr>ps_provisions = [], ps_definitions = [], seenRefs = {}\<rparr>"
  by (simp add: parseLoop_def)

lemma parseLoop_seenRefs:
  "seenRefs (parseLoop lower secs) = (\<lambda>e. js ''s'' @ sectionNum e) ` set secs"
  by (induction secs rule: rev_induct) (auto simp: parseLoop_Nil parseLoop_snoc parseStep_seenRefs)

lemma parseLoop_content_le:
  "p \<in> set (ps_provisions (parseLoop lower secs)) \<Longrightarrow> length (p_content p) \<le> 8000"
proof (induction secs rule: rev_induct)
  case Nil
  then show ?case by (simp add: parseLoop_Nil)
next
  case (snoc sec secs)
  from parseStep_provisions [of lower "parseLoop lower secs" sec] snoc
  show ?case by (auto simp: parseLoop_snoc length_extractSectionContent)
qed

lemma parseLoop_definition_le:
  "d \<in> set (ps_definitions (parseLoop lower secs)) \<Longrightarrow> length (d_definition d) \<le> 4000"
proof (induction secs rule: rev_induct)
  case Nil
  then show ?case by (simp add: parseLoop_Nil)
next
  case (snoc sec secs)
  from parseStep_definitions [of lower "parseLoop lower secs" sec] snoc
  show ?case by (auto simp: parseLoop_snoc dest: extractDefinitions_set)
qed

lemma parseLoop_provisions_mono:
  "set (ps_provisions (parseLoop lower secs)) \<subseteq> set (ps_provisions (parseLoop lower (secs @ [sec])))"
  using parseStep_provisions [of lower "parseLoop lower secs" sec]
  by (auto simp: parseLoop_snoc)

lemma parseLoop_definition_source:
  "d \<in> set (ps_definitions (parseLoop lower secs)) \<Longrightarrow>
     \<exists>p \<in> set (ps_provisions (parseLoop lower secs)). source_provision d = Some (provision_ref p)"
proof (induction secs rule: rev_induct)
  case Nil
  then show ?case by (simp add: parseLoop_Nil)
next
  case (snoc sec secs)
  let ?st = "parseLoop lower secs"
  from parseStep_definitions [of lower ?st sec]
  show ?case
  proof
    assume same: "ps_definitions (parseStep lower ?st sec) = ps_definitions ?st"
    with snoc.prems have "d \<in> set (ps_definitions ?st)" by (simp add: parseLoop_snoc)
    from snoc.IH [OF this] parseLoop_provisions_mono [of lower secs sec]
    show ?thesis by blast
  next
    assume new: "ps_definitions (parseStep lower ?st sec) =
        ps_definitions ?st @ extractDefinitions (bodyHtml sec) (js ''s'' @ sectionNum sec) \<and>
      ps_provisions (parseStep lower ?st sec) = ps_provisions ?st @
        [\<lparr>provision_ref = js ''s'' @ sectionNum sec, p_chapter = partContext sec,
          p_section = sectionNum sec, p_title = sectionTitle sec,
          p_content = extractSectionContent (bodyHtml sec)\<rparr>]"
    with snoc.prems
    consider "d \<in> set (ps_definitions ?st)"
      | "d \<in> set (extractDefinitions (bodyHtml sec) (js ''s'' @ sectionNum sec))"
      by (auto simp: parseLoop_snoc)
    then show ?thesis
    proof cases
      case 1
      from snoc.IH [OF this] parseLoop_provisions_mono [of lower secs sec]
      show ?thesis by blast
    next
      case 2
      then have "source_provision d = Some (js ''s'' @ sectionNum sec)"
        by (simp add: extractDefinitions_set)
      with new show ?thesis by (simp add: parseLoop_snoc)
    qed
  qed
qed


lemma parseLoop_refs_seen:
  "p \<in> set (ps_provisions (parseLoop lower secs)) \<Longrightarrow> provision_ref p \<in> seenRefs (parseLoop lower secs)"
proof (induction secs rule: rev_induct)
  case Nil
  then show ?case by (simp add: parseLoop_Nil)
next
  case (snoc sec secs)
  from parseStep_provisions [of lower "parseLoop lower secs" sec] snoc
  show ?case by (auto simp: parseLoop_snoc parseStep_seenRefs)
qed

lemma parseLoop_seen_iff:
  "(js ''s'' @ n \<in> seenRefs (parseLoop lower secs)) = (\<exists>e \<in> set secs. sectionNum e = n)"
  unfolding parseLoop_seenRefs image_iff by auto

lemma parseLoop_distinct_refs:
  "distinct (map provision_ref (ps_provisions (parseLoop lower secs)))"
proof (induction secs rule: rev_induct)
  case Nil
  then show ?case by (simp add: parseLoop_Nil)
next
  case (snoc sec secs)
  let ?st = "parseLoop lower secs"
  from parseStep_provisions [of lower ?st sec]
  show ?case
  proof
    assume "ps_provisions (parseStep lower ?st sec) = ps_provisions ?st"
    with snoc show ?thesis by (simp add: parseLoop_snoc)
  next
    assume new: "js ''s'' @ sectionNum sec \<notin> seenRefs ?st \<and>
      5 \<le> length (extractSectionContent (bodyHtml sec)) \<and>
      ps_provisions (parseStep lower ?st sec) = ps_provisions ?st @
        [\<lparr>provision_ref = js ''s'' @ sectionNum sec, p_chapter = partContext sec,
          p_section = sectionNum sec, p_title = sectionTitle sec,
          p_content = extractSectionContent (bodyHtml sec)\<rparr>]"
    have "provision_ref ` set (ps_provisions ?st) \<subseteq> seenRefs ?st"
      by (auto dest: parseLoop_refs_seen)
    with new have "js ''s'' @ sectionNum sec \<notin> provision_ref ` set (ps_provisions ?st)"
      by blast
    with new snoc show ?thesis by (simp add: parseLoop_snoc)
  qed
qed

lemma parseLoop_first_occurrence:
  "p \<in> set (ps_provisions (parseLoop lower secs)) \<Longrightarrow>
     \<exists>pre sec post. secs = pre @ sec # post
        \<and> (\<forall>e \<in> set pre. sectionNum e \<noteq> sectionNum sec)
        \<and> provision_ref p = js ''s'' @ sectionNum sec
        \<and> p_content p = extractSectionContent (bodyHtml sec)"
proof (induction secs rule: rev_induct)
  case Nil
  then show ?case by (simp add: parseLoop_Nil)
next
  case (snoc x secs)
  let ?st = "parseLoop lower secs"
  show ?case
  proof (cases "p \<in> set (ps_provisions ?st)")
    case True
    from snoc.IH [OF this] obtain pre sec post where
      "secs = pre @ sec # post" "\<forall>e \<in> set pre. sectionNum e \<noteq> sectionNum sec"
      "provision_ref p = js ''s'' @ sectionNum sec"
      "p_content p = extractSectionContent (bodyHtml sec)" by blast
    then show ?thesis
      by (intro exI [of _ pre] exI [of _ sec] exI [of _ "post @ [x]"]) simp
  next
    case False
    with snoc.prems parseStep_provisions [of lower ?st x]
    have new: "js ''s'' @ sectionNum x \<notin> seenRefs ?st"
      and p: "p = \<lparr>provision_ref = js ''s'' @ sectionNum x, p_chapter = partContext x,
                    p_section = sectionNum x, p_title = sectionTitle x,
                    p_content = extractSectionContent (bodyHtml x)\<rparr>"
      by (auto simp: parseLoop_snoc)
    from new have "\<forall>e \<in> set secs. sectionNum e \<noteq> sectionNum x"
      by (simp add: parseLoop_seen_iff)
    with p show ?thesis
      by (intro exI [of _ secs] exI [of _ x] exI [of _ "[]"]) simp
  qed
qed

section \<open>Evaluation on concrete input\<close>

text \<open>Each of the paragraph expressions starts with \<open><\<close>, so a match attempt at any other
  code unit fails at once; the expressions are unfolded only at a \<open><\<close>.\<close>

lemma headingRegex_skip: "c \<noteq> 60 \<Longrightarrow> headingRegex (c # cs) = None"
  by (auto simp: headingRegex_def js_def sameChar_def upperAscii_def)

lemma contentRegex_skip: "c \<noteq> 60 \<Longrightarrow> contentRegex (c # cs) = None"
  by (auto simp: contentRegex_def js_def sameChar_def upperAscii_def)

lemma defRegex_skip: "c \<noteq> 60 \<Longrightarrow> defRegex (c # cs) = None"
  by (auto simp: defRegex_def js_def sameChar_def upperAscii_def)

lemma termRegex_skip: "c \<noteq> 60 \<Longrightarrow> termRegex (c # cs) = None"
  by (auto simp: termRegex_def js_def sameChar_def upperAscii_def)

lemma termRegex_Nil: "termRegex [] = None"
  by (simp add: termRegex_def js_def)

lemma contentRegex_Nil: "contentRegex [] = None"
  by (simp add: contentRegex_def js_def)

lemmas regex_at =
  headingRegex_def [THEN fun_cong, of "60 # cs" for cs]
  contentRegex_def [THEN fun_cong, of "60 # cs" for cs]
  defRegex_def [THEN fun_cong, of "60 # cs" for cs]
  termRegex_def [THEN fun_cong, of "60 # cs" for cs]

lemmas ev =
  stripHtml_def stripPasses_def js_def trim_def plusG_def sameChar_def notGt_def isSpace_def
  isWord_def isAlpha_def isDigit_def upperAscii_def inClass_def
  headingRegex_skip contentRegex_skip defRegex_skip termRegex_skip termRegex_Nil
  contentRegex_Nil regex_at
  grp_def capture_def anyChar_def digit19_def levelOf_def sectRegex_def isLineTerminator_def
  buildPartContext_def splitStep_def nextIndex_def splitIntoSections_def substring_def Let_def
  CONTENT_CLASSES_def extractSectionContent_def definitionOf_def
  extractDefinitions_def parseStep_def parseLoop_def parseAustralianHtml_def lowerAscii_def

lemma exampleAct_parse:
  "parseAustralianHtml lowerAscii exampleAct =
     \<lparr>provisions = [\<lparr>provision_ref = js ''s6'', p_chapter = Some (js ''Part I''),
                      p_section = js ''6'', p_title = js ''Interpretation'',
                      p_content = js ''data means facts.''\<rparr>],
      definitions = [\<lparr>d_term = js ''data'', d_definition = js ''data means facts.'',
                       source_provision = Some (js ''s6'')\<rparr>]\<rparr>"
  by (simp add: exampleAct_def ev)

lemma shortDefinitionsSection_content:
  "extractSectionContent (bodyHtml shortDefinitionsSection) = []"
  by (simp add: shortDefinitionsSection_def ev)

lemma shortDefinitionsSection_definitions:
  "extractDefinitions (bodyHtml shortDefinitionsSection) (js ''s6'') =
     [\<lparr>d_term = js ''ab'', d_definition = js ''ab'', source_provision = Some (js ''s6'')\<rparr>]"
  by (simp add: shortDefinitionsSection_def ev)

lemma dupHtml_headings: "scanHeadings 0 dupHtml = [dupHeadingA, dupHeadingB]"
  by (simp add: dupHtml_def dupHeadingA_def dupHeadingB_def ev)

lemma dupHtml_sections: "splitIntoSections dupHtml = [dupFirst, dupSecond]"
  unfolding splitIntoSections_def dupHtml_headings
  by (simp add: dupHtml_def dupHeadingA_def dupHeadingB_def dupFirst_def dupSecond_def ev)

lemma dupFirst_loop:
  "parseLoop lowerAscii [dupFirst] = \<lparr>ps_provisions = [], ps_definitions = [], seenRefs = {js ''s1''}\<rparr>"
  by (simp add: dupFirst_def ev)

lemma dupSecond_content: "extractSectionContent (bodyHtml dupSecond) = js ''hello world!''"
  by (simp add: dupSecond_def ev)

lemma dupHeadingB_match: "sectRegex (h_text dupHeadingB) = Some (js ''1'', js ''B'')"
  by (simp add: dupHeadingB_def ev)

lemma plain50_nomatch: "\<forall>t \<in> set (suffixes (bodyHtml plain50)). contentRegex t = None"
  by (simp add: plain50_def ev)

lemma plain50_strip: "stripHtml (bodyHtml plain50) = js ''The Minister may make rules about those provisions''"
  by (simp add: plain50_def ev)

lemma plain8_nomatch: "\<forall>t \<in> set (suffixes (bodyHtml plain8)). contentRegex t = None"
  by (simp add: plain8_def ev)

lemma plain8_strip: "stripHtml (bodyHtml plain8) = js ''Repealed''"
  by (simp add: plain8_def ev)

lemma legacyHtml_headings: "scanHeadings 0 legacyHtml = [legacyHeading]"
  by (simp add: legacyHtml_def legacyHeading_def ev)

lemma sectionHeading_step:
  "sections (splitStep [] 0 trackedState sectionHeading) = sections trackedState @
     [\<lparr>sectionNum = js ''7'', sectionTitle = js ''Objects'', bodyHtml = [],
       partContext = buildPartContext (currentPart trackedState) (currentDivision trackedState),
       position = 0\<rparr>]"
  by (simp add: sectionHeading_def trackedState_def splitStep_def levelOf_def js_def isDigit_def
        sectRegex_def grp_def capture_def plusG_def isAlpha_def isSpace_def isLineTerminator_def
        sameChar_def trim_def substring_def Let_def)

lemma scheduleHtml_headings: "scanHeadings 0 scheduleHtml = [scheduleHeading, goodHeading]"
  by (simp add: scheduleHtml_def scheduleHeading_def goodHeading_def ev)

lemma scheduleHtml_sections:
  "splitIntoSections scheduleHtml =
     [\<lparr>sectionNum = js ''1'', sectionTitle = js ''A'', bodyHtml = js ''hello world!'',
       partContext = None, position = 50\<rparr>]"
  unfolding splitIntoSections_def scheduleHtml_headings
  by (simp add: scheduleHtml_def scheduleHeading_def goodHeading_def ev)




lemma spanHtml_headings: "scanHeadings 0 spanHtml = [spanHeadingA, spanHeadingP]"
  by (simp add: spanHtml_def spanHeadingA_def spanHeadingP_def ev)

lemma spanHtml_sections: "splitIntoSections spanHtml = [spanSection]"
  unfolding splitIntoSections_def spanHtml_headings
  by (simp add: spanHtml_def spanHeadingA_def spanHeadingP_def spanSection_def ev)

lemma zeroHtml_headings: "scanHeadings 0 zeroHtml = [zeroHeading]"
  by (simp add: zeroHtml_def zeroHeading_def ev)

lemma zeroHtml_parse:
  "parseAustralianHtml lowerAscii zeroHtml =
     \<lparr>provisions = [\<lparr>provision_ref = js ''s1'', p_chapter = None, p_section = js ''1'',
                      p_title = js ''A'', p_content = js ''hidden heading text''\<rparr>],
      definitions = []\<rparr>"
  unfolding parseAustralianHtml_def splitIntoSections_def zeroHtml_headings
  by (simp add: zeroHtml_def zeroHeading_def ev)

lemma ctxHtml_headings: "scanHeadings 0 ctxHtml = ctxHeadings @ ctxHeadingB # []"
  by (simp add: ctxHtml_def ctxHeadings_def ctxHeadingB_def ev)

lemma ctxHtml_sections: "splitIntoSections ctxHtml = ctxSections"
  unfolding splitIntoSections_def ctxHtml_headings
  by (simp add: ctxHtml_def ctxHeadings_def ctxHeadingB_def ctxSections_def ev)

lemma spanHeadingA_match: "sectRegex (h_text spanHeadingA) = Some (js ''1'', js ''A'')"
  by (simp add: spanHeadingA_def ev)

lemma legacyHeading_match: "sectRegex (h_text legacyHeading) = Some (js ''1'', js ''A'')"
  by (simp add: legacyHeading_def ev)

lemma legacyHtml_sections: "splitIntoSections legacyHtml = [legacySection]"
  unfolding splitIntoSections_def legacyHtml_headings
  by (simp add: legacyHtml_def legacyHeading_def legacySection_def ev)

lemma ctxHeadingB_match: "sectRegex (h_text ctxHeadingB) = Some (js ''2'', js ''B'')"
  by (simp add: ctxHeadingB_def ev)

lemma ctxHeadings_context:
  "foldl trackStep (None, None) ctxHeadings = (Some (js ''Q''), None)"
  by (simp add: ctxHeadings_def trackStep_def levelOf_def js_def isDigit_def)

section \<open>The claims\<close>

text \<open>C1, as the code has it. The sections reach the assembler in document order. A section
  is skipped as a duplicate exactly when an earlier section of the document carried the
  same section number, whether or not that earlier section produced a provision: the
  reference is recorded as seen before the content is looked at. A skipped section leaves
  the record as it was; the references of the provisions of a record are pairwise distinct,
  and every provision has the content of the first section with its number.\<close>

theorem duplicate_sections_first_seen_wins:
  "sorted_wrt (<) (map position (splitIntoSections html)) \<and>
   ((js ''s'' @ sectionNum sec \<in> seenRefs (parseLoop lower pre))
      = (\<exists>e \<in> set pre. sectionNum e = sectionNum sec)) \<and>
   (js ''s'' @ sectionNum sec \<in> seenRefs (parseLoop lower pre) \<longrightarrow>
      parseLoop lower (pre @ [sec]) = parseLoop lower pre) \<and>
   distinct (map provision_ref (ps_provisions (parseLoop lower secs))) \<and>
   (\<forall>p \<in> set (ps_provisions (parseLoop lower secs)).
      \<exists>pre sec post. secs = pre @ sec # post
        \<and> (\<forall>e \<in> set pre. sectionNum e \<noteq> sectionNum sec)
        \<and> provision_ref p = js ''s'' @ sectionNum sec
        \<and> p_content p = extractSectionContent (bodyHtml sec))"
proof (intro conjI)
  show "sorted_wrt (<) (map position (splitIntoSections html))"
    by (rule splitIntoSections_sorted)
  show "(js ''s'' @ sectionNum sec \<in> seenRefs (parseLoop lower pre))
      = (\<exists>e \<in> set pre. sectionNum e = sectionNum sec)"
    by (rule parseLoop_seen_iff)
  show "js ''s'' @ sectionNum sec \<in> seenRefs (parseLoop lower pre) \<longrightarrow>
      parseLoop lower (pre @ [sec]) = parseLoop lower pre"
    by (simp add: parseLoop_snoc parseStep_def)
  show "distinct (map provision_ref (ps_provisions (parseLoop lower secs)))"
    by (rule parseLoop_distinct_refs)
  show "\<forall>p \<in> set (ps_provisions (parseLoop lower secs)).
      \<exists>pre sec post. secs = pre @ sec # post
        \<and> (\<forall>e \<in> set pre. sectionNum e \<noteq> sectionNum sec)
        \<and> provision_ref p = js ''s'' @ sectionNum sec
        \<and> p_content p = extractSectionContent (bodyHtml sec)"
    by (blast dest: parseLoop_first_occurrence)
qed

theorem duplicate_sections_first_seen_wins_witness:
  "(\<exists>e \<in> set [dupFirst]. sectionNum e = sectionNum dupSecond) \<and>
   js ''s'' @ sectionNum dupSecond \<in> seenRefs (parseLoop lowerAscii [dupFirst]) \<and>
   parseLoop lowerAscii ([dupFirst] @ [dupSecond]) = parseLoop lowerAscii [dupFirst] \<and>
   ps_provisions (parseLoop lowerAscii [dupSecond]) \<noteq> [] \<and>
   (\<exists>pre sec post. [dupSecond] = pre @ sec # post
      \<and> provision_ref (hd (ps_provisions (parseLoop lowerAscii [dupSecond]))) = js ''s'' @ sectionNum sec
      \<and> p_content (hd (ps_provisions (parseLoop lowerAscii [dupSecond])))
            = extractSectionContent (bodyHtml sec))"
proof -
  have same: "\<exists>e \<in> set [dupFirst]. sectionNum e = sectionNum dupSecond"
    by (simp add: dupFirst_def dupSecond_def)
  have ne: "ps_provisions (parseLoop lowerAscii [dupSecond]) \<noteq> []"
    by (simp add: parseLoop_def parseStep_def Let_def dupSecond_content js_def)
  then have "hd (ps_provisions (parseLoop lowerAscii [dupSecond]))
               \<in> set (ps_provisions (parseLoop lowerAscii [dupSecond]))" by simp
  with same ne duplicate_sections_first_seen_wins [of dupHtml dupSecond lowerAscii "[dupFirst]" "[dupSecond]"]
  show ?thesis by blast
qed

text \<open>C1, as stated, fails. In \<open>dupHtml\<close> the first section numbered 1 has an empty body and
  produces no provision; the second section numbered 1 has content of twelve code units and
  is skipped all the same, although no provision with reference \<open>s1\<close> was emitted: the
  record has no provision at all.\<close>

theorem duplicate_skip_counterexample:
  "splitIntoSections dupHtml = [dupFirst, dupSecond] \<and>
   js ''s'' @ sectionNum dupSecond \<in> seenRefs (parseLoop lowerAscii [dupFirst]) \<and>
   js ''s'' @ sectionNum dupSecond
     \<notin> provision_ref ` set (ps_provisions (parseLoop lowerAscii [dupFirst])) \<and>
   ps_provisions (parseLoop lowerAscii [dupFirst]) = [] \<and>
   5 \<le> length (extractSectionContent (bodyHtml dupSecond)) \<and>
   parseStep lowerAscii (parseLoop lowerAscii [dupFirst]) dupSecond = parseLoop lowerAscii [dupFirst] \<and>
   provisions (parseAustralianHtml lowerAscii dupHtml) = []"
proof -
  have skip: "parseStep lowerAscii (parseLoop lowerAscii [dupFirst]) dupSecond = parseLoop lowerAscii [dupFirst]"
    unfolding dupFirst_loop by (simp add: parseStep_def dupSecond_def js_def)
  have "parseLoop lowerAscii [dupFirst, dupSecond] = parseLoop lowerAscii [dupFirst]"
    using parseLoop_snoc [of lowerAscii "[dupFirst]" dupSecond] skip by simp
  then have "provisions (parseAustralianHtml lowerAscii dupHtml) = []"
    by (simp add: parseAustralianHtml_def dupHtml_sections dupFirst_loop)
  with skip show ?thesis
    by (simp add: dupHtml_sections dupFirst_loop dupSecond_content)
       (simp add: dupSecond_def js_def)
qed

text \<open>C2. For every heading of level 5 (or 9) whose text carries a section number, the span
  recorded for the heading is a match of the heading expression that starts at its index
  and ends at its end, and the section emitted for it has as body the markup from that end
  to the start of the next heading marker of any level, or to the end of the document when
  it is the last heading. The next heading marker is the first position at or after the end
  at which the heading expression matches: it matches at the index of the next heading and
  nowhere in between, and nowhere after the end of the last heading.\<close>

theorem section_body_span:
  assumes scan: "scanHeadings 0 html = pre @ h # post"
    and lvl: "levelOf (h_class h) = 5 \<or> levelOf (h_class h) = 9"
    and sect: "sectRegex (h_text h) = Some (num, title)"
  shows "(\<exists>cl inner rest. headingRegex (drop (h_index h) html) = Some (cl, inner, rest)
            \<and> h_end h = length html - length rest) \<and>
    (\<exists>sec \<in> set (splitIntoSections html). position sec = h_index h \<and> sectionNum sec = num) \<and>
    (case post of
       [] \<Rightarrow> (\<forall>i. h_end h \<le> i \<longrightarrow> headingRegex (drop i html) = None) \<and>
            (\<forall>sec \<in> set (splitIntoSections html). position sec = h_index h \<longrightarrow>
                bodyHtml sec = drop (h_end h) html)
     | n # _ \<Rightarrow> h_end h \<le> h_index n \<and> headingRegex (drop (h_index n) html) \<noteq> None \<and>
            (\<forall>i. h_end h \<le> i \<and> i < h_index n \<longrightarrow> headingRegex (drop i html) = None) \<and>
            (\<forall>sec \<in> set (splitIntoSections html). position sec = h_index h \<longrightarrow>
               bodyHtml sec = take (h_index n - h_end h) (drop (h_end h) html)))"
proof -
  have hin: "h \<in> set (scanHeadings 0 html)" using scan by simp
  from scanHeadings_marker [OF hin]
  have marker: "\<exists>cl inner rest. headingRegex (drop (h_index h) html) = Some (cl, inner, rest)
            \<and> h_end h = length html - length rest"
    by auto
  note shared = section_span_shared [OF scan lvl sect]
  have gap: "headingRegex (drop i html) = None"
    if "h_end h \<le> i" "i < (case post of [] \<Rightarrow> length html | n # _ \<Rightarrow> h_index n)" for i
    using scanHeadings_gap [OF scan that(1)] that(2) by (cases post) simp_all
  show ?thesis
  proof (cases post)
    case Nil
    have "headingRegex (drop i html) = None" if "h_end h \<le> i" for i
    proof (cases "i < length html")
      case True
      with gap [OF that] Nil show ?thesis by simp
    next
      case False
      then show ?thesis by (simp add: headingRegex_Nil)
    qed
    with marker shared Nil show ?thesis by simp
  next
    case (Cons n post')
    then have "n \<in> set (scanHeadings 0 html)" using scan by simp
    from scanHeadings_marker [OF this] have "headingRegex (drop (h_index n) html) \<noteq> None"
      by auto
    with marker shared gap Cons show ?thesis by simp
  qed
qed

theorem section_body_span_witness:
  "scanHeadings 0 spanHtml = [] @ spanHeadingA # [spanHeadingP] \<and>
   levelOf (h_class spanHeadingA) = 5 \<and> levelOf (h_class spanHeadingP) = 2 \<and>
   sectRegex (h_text spanHeadingA) = Some (js ''1'', js ''A'') \<and>
   h_end spanHeadingA \<le> h_index spanHeadingP \<and>
   headingRegex (drop (h_index spanHeadingP) spanHtml) \<noteq> None \<and>
   headingRegex (drop 23 spanHtml) = None \<and> headingRegex (drop 24 spanHtml) = None \<and>
   spanSection \<in> set (splitIntoSections spanHtml) \<and>
   position spanSection = h_index spanHeadingA \<and>
   bodyHtml spanSection
     = take (h_index spanHeadingP - h_end spanHeadingA) (drop (h_end spanHeadingA) spanHtml) \<and>
   bodyHtml spanSection = js ''xy'' \<and>
   scanHeadings 0 dupHtml = [dupHeadingA] @ dupHeadingB # [] \<and>
   dupSecond \<in> set (splitIntoSections dupHtml) \<and> position dupSecond = h_index dupHeadingB \<and>
   bodyHtml dupSecond = drop (h_end dupHeadingB) dupHtml \<and>
   headingRegex (drop 50 dupHtml) = None"
proof -
  have hs: "scanHeadings 0 spanHtml = [] @ spanHeadingA # [spanHeadingP]"
    by (simp add: spanHtml_headings)
  have lv: "levelOf (h_class spanHeadingA) = 5" "levelOf (h_class spanHeadingP) = 2"
    by (simp_all add: spanHeadingA_def spanHeadingP_def levelOf_def js_def isDigit_def)
  have sec: "spanSection \<in> set (splitIntoSections spanHtml)"
    "position spanSection = h_index spanHeadingA" "bodyHtml spanSection = js ''xy''"
    by (simp_all add: spanHtml_sections spanSection_def spanHeadingA_def)
  have ends: "h_end spanHeadingA = 23" "h_index spanHeadingP = 25"
    by (simp_all add: spanHeadingA_def spanHeadingP_def)
  note a = section_body_span [OF hs disjI1 [OF lv(1)] spanHeadingA_match]
  from a ends have gap: "headingRegex (drop 23 spanHtml) = None" "headingRegex (drop 24 spanHtml) = None"
    by simp_all
  have hs': "scanHeadings 0 dupHtml = [dupHeadingA] @ dupHeadingB # []"
    by (simp add: dupHtml_headings)
  have lv': "levelOf (h_class dupHeadingB) = 5"
    by (simp add: dupHeadingB_def levelOf_def js_def isDigit_def)
  have sec': "dupSecond \<in> set (splitIntoSections dupHtml)" "position dupSecond = h_index dupHeadingB"
    by (simp_all add: dupHtml_sections dupSecond_def dupHeadingB_def)
  have end': "h_end dupHeadingB \<le> 50" by (simp add: dupHeadingB_def)
  note b = section_body_span [OF hs' disjI1 [OF lv'] dupHeadingB_match]
  from b end' have gap': "headingRegex (drop 50 dupHtml) = None" by simp
  from a b hs lv spanHeadingA_match sec gap hs' sec' gap' show ?thesis by simp
qed

text \<open>C3. When no content-class fragment is found anywhere in the body of a section, the
  content is the normalized whole body if that has more than 10 code units (capped at
  8000), and empty otherwise. So a body holding only a plain paragraph of 50 characters
  yields a provision with that text, and a body holding only a plain paragraph of 8
  characters yields no provision.\<close>

theorem fallback_content:
  assumes "\<forall>t \<in> set (suffixes (bodyHtml sec)). contentRegex t = None"
  shows "extractSectionContent (bodyHtml sec) =
           (if 10 < length (stripHtml (bodyHtml sec)) then take 8000 (stripHtml (bodyHtml sec))
            else []) \<and>
         (10 < length (stripHtml (bodyHtml sec)) \<and> js ''s'' @ sectionNum sec \<notin> seenRefs st \<longrightarrow>
            ps_provisions (parseStep lower st sec) = ps_provisions st @
              [\<lparr>provision_ref = js ''s'' @ sectionNum sec, p_chapter = partContext sec,
                p_section = sectionNum sec, p_title = sectionTitle sec,
                p_content = take 8000 (stripHtml (bodyHtml sec))\<rparr>]) \<and>
         (length (stripHtml (bodyHtml sec)) \<le> 10 \<longrightarrow>
            ps_provisions (parseStep lower st sec) = ps_provisions st)"
proof -
  from assms have "contentLoop (bodyHtml sec) [] = []" by (rule contentLoop_none)
  then have c: "extractSectionContent (bodyHtml sec) =
           (if 10 < length (stripHtml (bodyHtml sec)) then take 8000 (stripHtml (bodyHtml sec))
            else [])"
    by (simp add: extractSectionContent_def Let_def substring_0)
  then show ?thesis by (auto simp: parseStep_def Let_def)
qed

theorem fallback_content_witness:
  "length (stripHtml (bodyHtml plain50)) = 50 \<and>
   ps_provisions (parseStep lowerAscii emptyState plain50) =
     [\<lparr>provision_ref = js ''s1'', p_chapter = None, p_section = js ''1'', p_title = js ''A'',
       p_content = js ''The Minister may make rules about those provisions''\<rparr>] \<and>
   length (stripHtml (bodyHtml plain8)) = 8 \<and>
   extractSectionContent (bodyHtml plain8) = [] \<and>
   ps_provisions (parseStep lowerAscii emptyState plain8) = []"
proof -
  have l50: "length (stripHtml (bodyHtml plain50)) = 50"
    by (simp add: plain50_strip js_def)
  have l8: "length (stripHtml (bodyHtml plain8)) = 8"
    by (simp add: plain8_strip js_def)
  have fresh: "js ''s'' @ sectionNum plain50 \<notin> seenRefs emptyState"
    by (simp add: emptyState_def)
  from fallback_content [OF plain50_nomatch, of emptyState lowerAscii] l50 fresh
  have a: "ps_provisions (parseStep lowerAscii emptyState plain50) =
     [\<lparr>provision_ref = js ''s1'', p_chapter = None, p_section = js ''1'', p_title = js ''A'',
       p_content = js ''The Minister may make rules about those provisions''\<rparr>]"
    by (simp add: emptyState_def plain50_strip) (simp add: plain50_def js_def)
  from fallback_content [OF plain8_nomatch, of emptyState lowerAscii] l8
  have b: "extractSectionContent (bodyHtml plain8) = []"
    "ps_provisions (parseStep lowerAscii emptyState plain8) = []"
    by (simp_all add: emptyState_def)
  from l50 l8 a b show ?thesis by simp
qed

text \<open>C4. A section whose extracted content has fewer than 5 code units adds neither a
  provision nor a definition to the record, whatever its title: the definitions of its body
  are not scanned.\<close>

theorem short_content_contributes_nothing:
  assumes "length (extractSectionContent (bodyHtml sec)) < 5"
  shows "ps_provisions (parseStep lower st sec) = ps_provisions st \<and>
         ps_definitions (parseStep lower st sec) = ps_definitions st"
  using assms by (simp add: parseStep_def Let_def)

theorem short_content_contributes_nothing_witness:
  "length (extractSectionContent (bodyHtml shortDefinitionsSection)) < 5 \<and>
   lowerAscii (sectionTitle shortDefinitionsSection) = js ''definitions'' \<and>
   extractDefinitions (bodyHtml shortDefinitionsSection) (js ''s6'') \<noteq> [] \<and>
   ps_provisions (parseStep lowerAscii emptyState shortDefinitionsSection) = [] \<and>
   ps_definitions (parseStep lowerAscii emptyState shortDefinitionsSection) = []"
proof -
  have short: "length (extractSectionContent (bodyHtml shortDefinitionsSection)) < 5"
    by (simp add: shortDefinitionsSection_content)
  have title: "lowerAscii (sectionTitle shortDefinitionsSection) = js ''definitions''"
    by (simp add: shortDefinitionsSection_def lowerAscii_def js_def)
  from short_content_contributes_nothing [OF short, of lowerAscii emptyState] short title
  show ?thesis
    by (simp add: shortDefinitionsSection_definitions emptyState_def)
qed

text \<open>C5, as the code has it. Every heading that the scanner returns has a class made of
  one of the three family names (in any letter case) and one digit from 1 to 9: a class
  with any other suffix yields no heading, and that is not an error. The normalized level
  is the digit for 1 to 8 and 5 for 9; the code keeps the digit and treats 9 as 5, and the
  step of the section loop depends on the class through the normalized level only, so a
  heading with suffix 9 acts as a section heading. Sections stem from scanned headings of
  normalized level 5 only, and the body of a section is all the markup up to the next
  scanned heading: a fragment with an unrecognized suffix is not invisible to the rest of
  the pipeline, it stays in the body of the enclosing section.\<close>

theorem heading_levels:
  "(h \<in> set (scanHeadings off s) \<longrightarrow>
      (\<exists>fam d. h_class h = fam @ [d] \<and> 49 \<le> d \<and> d \<le> 57
         \<and> map upperAscii fam \<in> {js ''ACTHEAD'', js ''NEW'', js ''HEADING''}
         \<and> normalizedLevel (h_class h) = (if d = 57 then 5 else d - 48))) \<and>
   normalizedLevel cl = (if levelOf cl = 9 then 5 else levelOf cl) \<and>
   (normalizedLevel cl = normalizedLevel (h_class h) \<longrightarrow>
      splitStep html n st (h\<lparr>h_class := cl\<rparr>) = splitStep html n st h) \<and>
   (scanHeadings 0 html = pre @ h # post \<and> normalizedLevel (h_class h) = 5
      \<and> sectRegex (h_text h) = Some (num, title) \<longrightarrow>
      (\<exists>sec \<in> set (splitIntoSections html). position sec = h_index h \<and> sectionNum sec = num) \<and>
      (case post of
         [] \<Rightarrow> (\<forall>sec \<in> set (splitIntoSections html). position sec = h_index h \<longrightarrow>
                  bodyHtml sec = drop (h_end h) html)
       | g # _ \<Rightarrow> h_end h \<le> h_index g \<and>
              (\<forall>sec \<in> set (splitIntoSections html). position sec = h_index h \<longrightarrow>
                 bodyHtml sec = take (h_index g - h_end h) (drop (h_end h) html)))) \<and>
   (\<forall>sec \<in> set (splitIntoSections html).
      \<exists>g \<in> set (scanHeadings 0 html). position sec = h_index g \<and> normalizedLevel (h_class g) = 5)"
proof -
  have c1: "\<exists>fam d. h_class h = fam @ [d] \<and> 49 \<le> d \<and> d \<le> 57
         \<and> map upperAscii fam \<in> {js ''ACTHEAD'', js ''NEW'', js ''HEADING''}
         \<and> normalizedLevel (h_class h) = (if d = 57 then 5 else d - 48)"
    if "h \<in> set (scanHeadings off s)"
  proof -
    from that obtain fam d where c: "h_class h = fam @ [d]" and d: "digit19 d" and
      f: "map upperAscii fam \<in> {js ''ACTHEAD'', js ''NEW'', js ''HEADING''}"
      by (blast dest: scanHeadings_class)
    from c d have "normalizedLevel (h_class h) = (if d = 57 then 5 else d - 48)"
      by (auto simp: normalizedLevel_def digit19_def)
    with c d f show ?thesis unfolding digit19_def by blast
  qed
  have c2: "normalizedLevel cl = (if levelOf cl = 9 then 5 else levelOf cl)"
    by (rule normalizedLevel_levelOf)
  have c3: "splitStep html n st (h\<lparr>h_class := cl\<rparr>) = splitStep html n st h"
    if "normalizedLevel cl = normalizedLevel (h_class h)"
    using that by (rule splitStep_class)
  have c4: "(\<exists>sec \<in> set (splitIntoSections html). position sec = h_index h \<and> sectionNum sec = num) \<and>
      (case post of
         [] \<Rightarrow> (\<forall>sec \<in> set (splitIntoSections html). position sec = h_index h \<longrightarrow>
                  bodyHtml sec = drop (h_end h) html)
       | g # _ \<Rightarrow> h_end h \<le> h_index g \<and>
              (\<forall>sec \<in> set (splitIntoSections html). position sec = h_index h \<longrightarrow>
                 bodyHtml sec = take (h_index g - h_end h) (drop (h_end h) html)))"
    if a: "scanHeadings 0 html = pre @ h # post \<and> normalizedLevel (h_class h) = 5
      \<and> sectRegex (h_text h) = Some (num, title)"
  proof -
    from a have "levelOf (h_class h) = 5 \<or> levelOf (h_class h) = 9"
      by (auto simp: normalizedLevel_levelOf split: if_splits)
    with a section_span_shared [of html pre h post num title] show ?thesis by blast
  qed
  have c5: "\<forall>sec \<in> set (splitIntoSections html).
      \<exists>g \<in> set (scanHeadings 0 html). position sec = h_index g \<and> normalizedLevel (h_class g) = 5"
    by (blast dest: sections_from_headings)
  from c1 c2 c3 c4 c5 show ?thesis by blast
qed

theorem heading_levels_witness:
  "legacyHeading \<in> set (scanHeadings 0 legacyHtml) \<and>
   scanHeadings 0 legacyHtml = [] @ legacyHeading # [] \<and>
   levelOf (h_class legacyHeading) = 9 \<and>
   normalizedLevel (h_class legacyHeading) = 5 \<and>
   normalizedLevel (js ''ActHead5'') = normalizedLevel (h_class legacyHeading) \<and>
   sectRegex (h_text legacyHeading) = Some (js ''1'', js ''A'') \<and>
   splitStep legacyHtml 28 initialSplit (legacyHeading\<lparr>h_class := js ''ActHead5''\<rparr>) =
     splitStep legacyHtml 28 initialSplit legacyHeading \<and>
   legacySection \<in> set (splitIntoSections legacyHtml) \<and>
   position legacySection = h_index legacyHeading \<and>
   bodyHtml legacySection = drop (h_end legacyHeading) legacyHtml \<and>
   (\<exists>g \<in> set (scanHeadings 0 legacyHtml).
      position legacySection = h_index g \<and> normalizedLevel (h_class g) = 5)"
proof -
  have m: "legacyHeading \<in> set (scanHeadings 0 legacyHtml)"
    "scanHeadings 0 legacyHtml = [] @ legacyHeading # []"
    by (simp_all add: legacyHtml_headings)
  have l: "levelOf (h_class legacyHeading) = 9"
    by (simp add: legacyHeading_def levelOf_def js_def isDigit_def)
  have n: "normalizedLevel (h_class legacyHeading) = 5"
    "normalizedLevel (js ''ActHead5'') = normalizedLevel (h_class legacyHeading)"
    by (simp_all add: legacyHeading_def normalizedLevel_def js_def)
  have s: "legacySection \<in> set (splitIntoSections legacyHtml)"
    "position legacySection = h_index legacyHeading"
    by (simp_all add: legacyHtml_sections legacySection_def legacyHeading_def)
  note t = heading_levels [where h = legacyHeading and off = 0 and s = legacyHtml
      and cl = "js ''ActHead5''" and html = legacyHtml and n = 28 and st = initialSplit
      and pre = "[]" and post = "[]" and num = "js ''1''" and title = "js ''A''"]
  from t m l n s legacyHeading_match show ?thesis by simp
qed

text \<open>C5, as stated, fails. In \<open>zeroHtml\<close> the fragment of class \<open>ActHead0\<close> yields no heading,
  but it is not invisible to the rest of the pipeline: it is part of the body of section 1,
  and its text is the content of the provision.\<close>

theorem unrecognized_suffix_counterexample:
  "scanHeadings 0 zeroHtml = [zeroHeading] \<and>
   provisions (parseAustralianHtml lowerAscii zeroHtml) =
     [\<lparr>provision_ref = js ''s1'', p_chapter = None, p_section = js ''1'', p_title = js ''A'',
       p_content = js ''hidden heading text''\<rparr>]"
  by (simp add: zeroHtml_headings zeroHtml_parse)

text \<open>C6. In one step of the fold over the headings, a heading of level 1 or 2 sets the part
  to its text and resets the division; a heading of level 3 or 4 sets the division and
  leaves the part; a heading of level 5 changes neither. A section emitted in the step
  carries the label built from the part and division held before the step: both joined by
  \<open>" > "\<close> when both are present, the present one when only one is, and \<open>undefined\<close> when
  neither is. For a whole document: the sections come in document order, and the section
  emitted for a section heading carries the label of the context that the tracker of the
  specification reaches by folding over the headings scanned before it, in order.\<close>

theorem context_tracking:
  "(levelOf (h_class h) = 1 \<or> levelOf (h_class h) = 2 \<longrightarrow>
      splitStep html n st h = st\<lparr>currentPart := Some (h_text h), currentDivision := None\<rparr>) \<and>
   (levelOf (h_class h) = 3 \<or> levelOf (h_class h) = 4 \<longrightarrow>
      splitStep html n st h = st\<lparr>currentDivision := Some (h_text h)\<rparr>) \<and>
   (levelOf (h_class h) = 5 \<longrightarrow>
      currentPart (splitStep html n st h) = currentPart st \<and>
      currentDivision (splitStep html n st h) = currentDivision st) \<and>
   (\<forall>sec. sections (splitStep html n st h) = sections st @ [sec] \<longrightarrow>
      partContext sec = buildPartContext (currentPart st) (currentDivision st)) \<and>
   buildPartContext part division =
     (if present part \<and> present division then Some (the part @ js '' > '' @ the division)
      else if present part then Some (the part)
      else if present division then Some (the division)
      else None) \<and>
   sorted_wrt (<) (map position (splitIntoSections html)) \<and>
   (scanHeadings 0 html = pre @ h # post
      \<and> (levelOf (h_class h) = 5 \<or> levelOf (h_class h) = 9)
      \<and> sectRegex (h_text h) = Some (num, title) \<longrightarrow>
      (\<exists>sec \<in> set (splitIntoSections html). position sec = h_index h \<and> sectionNum sec = num) \<and>
      (\<forall>sec \<in> set (splitIntoSections html). position sec = h_index h \<longrightarrow>
         partContext sec = contextLabel (foldl trackStep (None, None) pre)))"
proof -
  have step: "(levelOf (h_class h) = 1 \<or> levelOf (h_class h) = 2 \<longrightarrow>
      splitStep html n st h = st\<lparr>currentPart := Some (h_text h), currentDivision := None\<rparr>) \<and>
   (levelOf (h_class h) = 3 \<or> levelOf (h_class h) = 4 \<longrightarrow>
      splitStep html n st h = st\<lparr>currentDivision := Some (h_text h)\<rparr>) \<and>
   (levelOf (h_class h) = 5 \<longrightarrow>
      currentPart (splitStep html n st h) = currentPart st \<and>
      currentDivision (splitStep html n st h) = currentDivision st) \<and>
   (\<forall>sec. sections (splitStep html n st h) = sections st @ [sec] \<longrightarrow>
      partContext sec = buildPartContext (currentPart st) (currentDivision st)) \<and>
   buildPartContext part division =
     (if present part \<and> present division then Some (the part @ js '' > '' @ the division)
      else if present part then Some (the part)
      else if present division then Some (the division)
      else None)"
    by (cases part; cases division)
       (auto simp: splitStep_def Let_def buildPartContext_def present_def js_def split: option.splits)
  have order: "sorted_wrt (<) (map position (splitIntoSections html))"
    by (rule splitIntoSections_sorted)
  have doc: "(\<exists>sec \<in> set (splitIntoSections html). position sec = h_index h \<and> sectionNum sec = num) \<and>
      (\<forall>sec \<in> set (splitIntoSections html). position sec = h_index h \<longrightarrow>
         partContext sec = contextLabel (foldl trackStep (None, None) pre))"
    if scan: "scanHeadings 0 html = pre @ h # post"
      and lvl: "levelOf (h_class h) = 5 \<or> levelOf (h_class h) = 9"
      and sect: "sectRegex (h_text h) = Some (num, title)"
  proof -
    let ?st0 = "\<lparr>currentPart = None, currentDivision = None, sections = []\<rparr>"
    from splitLoop_emits_context [OF lvl sect, of html ?st0 pre post]
    obtain sec where sec: "sec \<in> set (splitIntoSections html)" "position sec = h_index h"
      "sectionNum sec = num" "partContext sec = contextLabel (foldl trackStep (None, None) pre)"
      by (auto simp: splitIntoSections_def scan)
    from order have "distinct (map position (splitIntoSections html))"
      by (simp add: strict_sorted_iff)
    then have inj: "inj_on position (set (splitIntoSections html))" by (simp add: distinct_map)
    have "partContext sec' = contextLabel (foldl trackStep (None, None) pre)"
      if "sec' \<in> set (splitIntoSections html)" "position sec' = h_index h" for sec'
    proof -
      from inj_onD [OF inj, of sec' sec] that sec have "sec' = sec" by simp
      with sec show ?thesis by simp
    qed
    with sec show ?thesis by blast
  qed
  from step order doc show ?thesis by blast
qed

theorem context_tracking_witness:
  "levelOf (h_class partHeading) = 2 \<and>
   splitStep [] 0 trackedState partHeading =
     \<lparr>currentPart = Some (js ''Part II''), currentDivision = None, sections = []\<rparr> \<and>
   levelOf (h_class divisionHeading) = 3 \<and>
   splitStep [] 0 trackedState divisionHeading =
     \<lparr>currentPart = Some (js ''Part I''), currentDivision = Some (js ''Division 3''), sections = []\<rparr> \<and>
   levelOf (h_class sectionHeading) = 5 \<and>
   currentPart (splitStep [] 0 trackedState sectionHeading) = Some (js ''Part I'') \<and>
   currentDivision (splitStep [] 0 trackedState sectionHeading) = Some (js ''Division 2'') \<and>
   map partContext (sections (splitStep [] 0 trackedState sectionHeading)) =
     [Some (js ''Part I > Division 2'')] \<and>
   buildPartContext (Some (js ''Part I'')) None = Some (js ''Part I'') \<and>
   buildPartContext (Some []) (Some (js ''Division 2'')) = Some (js ''Division 2'') \<and>
   buildPartContext None None = None \<and>
   scanHeadings 0 ctxHtml = ctxHeadings @ ctxHeadingB # [] \<and>
   levelOf (h_class ctxHeadingB) = 5 \<and>
   sectRegex (h_text ctxHeadingB) = Some (js ''2'', js ''B'') \<and>
   contextLabel (foldl trackStep (None, None) ctxHeadings) = Some (js ''Q'') \<and>
   map position (splitIntoSections ctxHtml) = [42, 86] \<and>
   map partContext (splitIntoSections ctxHtml) = [Some (js ''P > D''), Some (js ''Q'')] \<and>
   partContext (splitIntoSections ctxHtml ! 1) = contextLabel (foldl trackStep (None, None) ctxHeadings)"
proof -
  have l2: "levelOf (h_class partHeading) = 2"
    by (simp add: partHeading_def levelOf_def js_def isDigit_def)
  have l3: "levelOf (h_class divisionHeading) = 3"
    by (simp add: divisionHeading_def levelOf_def js_def isDigit_def)
  have l5: "levelOf (h_class sectionHeading) = 5"
    by (simp add: sectionHeading_def levelOf_def js_def isDigit_def)
  have p: "present (Some (js ''Part I''))" "present (Some (js ''Division 2''))"
    "\<not> present None" "\<not> present (Some [])"
    by (simp_all add: present_def js_def)
  note t = context_tracking [of partHeading "[]" 0 trackedState
      "Some (js ''Part I'')" "Some (js ''Division 2'')"]
  note t3 = context_tracking [of divisionHeading "[]" 0 trackedState "Some (js ''Part I'')" None]
  note t5 = context_tracking [of sectionHeading "[]" 0 trackedState
      "Some []" "Some (js ''Division 2'')"]
  note t0 = context_tracking [of sectionHeading "[]" 0 trackedState None None]
  have a: "splitStep [] 0 trackedState partHeading =
     \<lparr>currentPart = Some (js ''Part II''), currentDivision = None, sections = []\<rparr>"
    using t l2 by (simp add: trackedState_def partHeading_def)
  have b: "splitStep [] 0 trackedState divisionHeading =
     \<lparr>currentPart = Some (js ''Part I''), currentDivision = Some (js ''Division 3''), sections = []\<rparr>"
    using t3 l3 by (simp add: trackedState_def divisionHeading_def)
  have c: "currentPart (splitStep [] 0 trackedState sectionHeading) = Some (js ''Part I'')"
    "currentDivision (splitStep [] 0 trackedState sectionHeading) = Some (js ''Division 2'')"
    using t5 l5 by (simp_all add: trackedState_def)
  have d: "buildPartContext (Some (js ''Part I'')) (Some (js ''Division 2'')) = Some (js ''Part I > Division 2'')"
    using t p by (simp add: js_def)
  have e: "map partContext (sections (splitStep [] 0 trackedState sectionHeading)) =
     [Some (js ''Part I > Division 2'')]"
    using sectionHeading_step d by (simp add: trackedState_def)
  have f: "buildPartContext (Some (js ''Part I'')) None = Some (js ''Part I'')"
    using t3 p by simp
  have g: "buildPartContext (Some []) (Some (js ''Division 2'')) = Some (js ''Division 2'')"
    using t5 p by simp
  have h: "buildPartContext None None = None"
    using t0 p by simp
  have lB: "levelOf (h_class ctxHeadingB) = 5"
    by (simp add: ctxHeadingB_def levelOf_def js_def isDigit_def)
  have lab: "contextLabel (foldl trackStep (None, None) ctxHeadings) = Some (js ''Q'')"
    by (simp add: ctxHeadings_context contextLabel_def present_def js_def)
  have secs: "map position (splitIntoSections ctxHtml) = [42, 86]"
    "map partContext (splitIntoSections ctxHtml) = [Some (js ''P > D''), Some (js ''Q'')]"
    by (simp_all add: ctxHtml_sections ctxSections_def)
  have mem: "splitIntoSections ctxHtml ! 1 \<in> set (splitIntoSections ctxHtml)"
    "position (splitIntoSections ctxHtml ! 1) = h_index ctxHeadingB"
    by (simp_all add: ctxHtml_sections ctxSections_def ctxHeadingB_def)
  note tB = context_tracking [where h = ctxHeadingB and html = ctxHtml and pre = ctxHeadings
      and post = "[]" and num = "js ''2''" and title = "js ''B''"]
  from tB ctxHtml_headings lB ctxHeadingB_match mem
  have doc: "partContext (splitIntoSections ctxHtml ! 1)
               = contextLabel (foldl trackStep (None, None) ctxHeadings)"
    by blast
  from l2 l3 l5 a b c e f g h ctxHtml_headings lB ctxHeadingB_match lab secs doc
  show ?thesis by simp
qed

text \<open>C7. A heading of level 5 (or 9) whose normalized text does not match the
  section-number pattern is skipped silently: the step returns the state unchanged, the
  loop continues as if the heading were absent, and no section of the document, hence no
  provision and no definition, stems from it.\<close>

theorem malformed_heading_skipped:
  assumes "levelOf (h_class h) = 5 \<or> levelOf (h_class h) = 9"
    and "sectRegex (h_text h) = None"
  shows "splitStep html n st h = st \<and>
         splitLoop html st (h # hs) = splitLoop html st hs \<and>
         (h \<in> set (scanHeadings 0 html) \<longrightarrow>
            (\<forall>sec \<in> set (splitIntoSections html). position sec \<noteq> h_index h))"
proof (intro conjI impI ballI)
  from assms show step: "splitStep html n st h = st" for n
    by (auto simp: splitStep_def Let_def)
  then show "splitLoop html st (h # hs) = splitLoop html st hs" by simp
next
  fix sec
  assume h: "h \<in> set (scanHeadings 0 html)" and sec: "sec \<in> set (splitIntoSections html)"
  let ?hs = "scanHeadings 0 html"
  have "sorted_wrt (<) (map h_index ?hs)"
    using scanHeadings_spans [of 0 html] by (rule spansOk_sorted)
  then have "distinct (map h_index ?hs)" by (simp add: strict_sorted_iff)
  then have inj: "inj_on h_index (set ?hs)" by (simp add: distinct_map)
  show "position sec \<noteq> h_index h"
  proof
    assume eq: "position sec = h_index h"
    from sec have "position sec \<in> set (map position (splitIntoSections html))" by simp
    then have "position sec \<in> h_index ` set (filter isSectionHeading ?hs)"
      by (simp add: splitIntoSections_def splitLoop_positions)
    then obtain h' where h': "h' \<in> set ?hs" "isSectionHeading h'" "h_index h' = position sec"
      by auto
    with eq inj h have "h' = h" by (auto dest: inj_onD)
    with h' assms show False by (simp add: isSectionHeading_def)
  qed
qed

theorem malformed_heading_skipped_witness:
  "levelOf (h_class scheduleHeading) = 5 \<and>
   sectRegex (h_text scheduleHeading) = None \<and>
   scheduleHeading \<in> set (scanHeadings 0 scheduleHtml) \<and>
   splitStep scheduleHtml 50 initialSplit scheduleHeading = initialSplit \<and>
   splitLoop scheduleHtml initialSplit [scheduleHeading, goodHeading] =
     splitLoop scheduleHtml initialSplit [goodHeading] \<and>
   map position (splitIntoSections scheduleHtml) = [50] \<and>
   h_index scheduleHeading \<notin> set (map position (splitIntoSections scheduleHtml))"
proof -
  have l: "levelOf (h_class scheduleHeading) = 5"
    by (simp add: scheduleHeading_def levelOf_def js_def isDigit_def)
  have n: "sectRegex (h_text scheduleHeading) = None"
    by (simp add: scheduleHeading_def sectRegex_def grp_def plusG_def isDigit_def js_def)
  have m: "scheduleHeading \<in> set (scanHeadings 0 scheduleHtml)"
    by (simp add: scheduleHtml_headings)
  have s: "map position (splitIntoSections scheduleHtml) = [50]"
    by (simp add: scheduleHtml_sections)
  from malformed_heading_skipped [OF disjI1 [OF l] n, of scheduleHtml 50 initialSplit "[goodHeading]"]
    l n m s
  show ?thesis by auto
qed



text \<open>C9. In every record that \<open>parseAustralianHtml\<close> produces, whatever the markup, the
  content of every provision has at most 8000 code units and the text of every definition
  at most 4000.\<close>

theorem content_and_definition_caps:
  "(\<forall>p \<in> set (provisions (parseAustralianHtml lower html)). length (p_content p) \<le> 8000) \<and>
   (\<forall>d \<in> set (definitions (parseAustralianHtml lower html)). length (d_definition d) \<le> 4000)"
  by (simp add: parseAustralianHtml_def Let_def parseLoop_content_le parseLoop_definition_le)

theorem content_and_definition_caps_witness:
  "provisions (parseAustralianHtml lowerAscii exampleAct) \<noteq> [] \<and>
   definitions (parseAustralianHtml lowerAscii exampleAct) \<noteq> [] \<and>
   length (p_content (hd (provisions (parseAustralianHtml lowerAscii exampleAct)))) \<le> 8000 \<and>
   length (d_definition (hd (definitions (parseAustralianHtml lowerAscii exampleAct)))) \<le> 4000"
proof -
  have ne: "provisions (parseAustralianHtml lowerAscii exampleAct) \<noteq> []"
    "definitions (parseAustralianHtml lowerAscii exampleAct) \<noteq> []"
    by (simp_all add: exampleAct_parse)
  then have "hd (provisions (parseAustralianHtml lowerAscii exampleAct))
               \<in> set (provisions (parseAustralianHtml lowerAscii exampleAct))"
    "hd (definitions (parseAustralianHtml lowerAscii exampleAct))
               \<in> set (definitions (parseAustralianHtml lowerAscii exampleAct))"
    by simp_all
  with ne content_and_definition_caps [of lowerAscii exampleAct] show ?thesis
    by blast
qed

text \<open>C10. In every parsed record, the \<open>source_provision\<close> of every definition is set and is
  the \<open>provision_ref\<close> of a provision of the same record: definitions are extracted only
  from sections whose provision was emitted.\<close>

theorem definition_source_is_emitted_provision:
  "\<forall>d \<in> set (definitions (parseAustralianHtml lower html)).
     \<exists>p \<in> set (provisions (parseAustralianHtml lower html)).
        source_provision d = Some (provision_ref p)"
  by (simp add: parseAustralianHtml_def Let_def parseLoop_definition_source)

theorem definition_source_is_emitted_provision_witness:
  "definitions (parseAustralianHtml lowerAscii exampleAct) \<noteq> [] \<and>
   (\<exists>p \<in> set (provisions (parseAustralianHtml lowerAscii exampleAct)).
      source_provision (hd (definitions (parseAustralianHtml lowerAscii exampleAct)))
        = Some (provision_ref p))"
proof -
  have ne: "definitions (parseAustralianHtml lowerAscii exampleAct) \<noteq> []"
    by (simp add: exampleAct_parse)
  then have "hd (definitions (parseAustralianHtml lowerAscii exampleAct))
               \<in> set (definitions (parseAustralianHtml lowerAscii exampleAct))"
    by simp
  with ne definition_source_is_emitted_provision [of lowerAscii exampleAct] show ?thesis
    by blast
qed

end
